theory Spec2Isabelle
  imports Main "HOL-Library.AList"
begin

section \<open>Entity model (types.ts)\<close>

text \<open>
  The interfaces of the source, as records. Field names follow the source; where two
  interfaces share a field name (\<open>id\<close>, \<open>name\<close>, \<open>title\<close>) the field is prefixed with its
  interface. A JavaScript \<open>string | null\<close> is a \<open>string option\<close>, a \<open>number | null\<close> that
  holds a match id is an \<open>int option\<close>. Scores and ids are whole numbers in every path of
  the program (\<open>parseInt(...) || 0\<close>, the loop counter of \<open>initializeMatches\<close>), so they are
  \<open>int\<close>.
\<close>

record Player =
  player_id :: string
  name :: string

record MatchResult =
  winnerId :: string
  redScore :: int
  whiteScore :: int
  details :: string

datatype Slot = Red | White

record Match =
  match_id :: int
  redPlayerId :: "string option"
  whitePlayerId :: "string option"
  winnerToMatchId :: "int option"
  winnerToSlot :: "Slot option"
  loserToMatchId :: "int option"
  loserToSlot :: "Slot option"
  result :: "MatchResult option"

datatype Status = SETUP | ACTIVE | FINISHED

record TournamentData =
  tournament_id :: string
  lastUpdated :: int
  title :: string
  players :: "Player list"
  matches :: "Match list"
  totalMatches :: int
  status :: Status

subsection \<open>JavaScript truthiness\<close>

text \<open>
  The source tests slots and edges by truthiness (\<open>if (match.redPlayerId)\<close>,
  \<open>!m.winnerToMatchId\<close>): \<open>null\<close> and the empty string are falsy for a slot, \<open>null\<close> and
  \<open>0\<close> are falsy for a match id.
\<close>

definition truthy :: "string option \<Rightarrow> bool" where
  "truthy s = (case s of None \<Rightarrow> False | Some v \<Rightarrow> v \<noteq> [])"

definition truthy_num :: "int option \<Rightarrow> bool" where
  "truthy_num n = (case n of None \<Rightarrow> False | Some v \<Rightarrow> v \<noteq> 0)"

text \<open>\<open>sourceParticipants.includes(slot)\<close> for a slot of type \<open>string | null\<close>.\<close>

definition includes_str :: "string list \<Rightarrow> string option \<Rightarrow> bool" where
  "includes_str xs s = (case s of None \<Rightarrow> False | Some v \<Rightarrow> v \<in> set xs)"

section \<open>Progression engine: placement\<close>

text \<open>
  \<open>placePlayerInMatch\<close> (types.ts, lines 257-284): a \<open>map\<close> over the matches that rewrites
  every match whose id is the target id. The target slot \<open>null\<close> is the "Auto" slot.
\<close>

definition placePlayerInMatch ::
  "Match list \<Rightarrow> int \<Rightarrow> string \<Rightarrow> Slot option \<Rightarrow> string list \<Rightarrow> Match list" where
  "placePlayerInMatch ms targetMatchId playerId targetSlot sourceParticipants =
     map (\<lambda>targetMatch.
       if match_id targetMatch = targetMatchId then
         if targetSlot = Some Red then targetMatch\<lparr>redPlayerId := Some playerId\<rparr>
         else if targetSlot = Some White then targetMatch\<lparr>whitePlayerId := Some playerId\<rparr>
         else if truthy (redPlayerId targetMatch)
                 \<and> includes_str sourceParticipants (redPlayerId targetMatch)
           then targetMatch\<lparr>redPlayerId := Some playerId\<rparr>
         else if truthy (whitePlayerId targetMatch)
                 \<and> includes_str sourceParticipants (whitePlayerId targetMatch)
           then targetMatch\<lparr>whitePlayerId := Some playerId\<rparr>
         else if \<not> truthy (redPlayerId targetMatch)
           then targetMatch\<lparr>redPlayerId := Some playerId\<rparr>
         else if \<not> truthy (whitePlayerId targetMatch)
           then targetMatch\<lparr>whitePlayerId := Some playerId\<rparr>
         else targetMatch
       else targetMatch) ms"

subsection \<open>The placement policy in the words of the specification\<close>

text \<open>
  A slot "holds a player" when it is occupied (not \<open>null\<close>, not the empty string, which
  is no player id); it is "empty" otherwise.
\<close>

definition holdsSourceParticipant :: "string list \<Rightarrow> string option \<Rightarrow> bool" where
  "holdsSourceParticipant sourceParticipants s =
     (case s of None \<Rightarrow> False | Some p \<Rightarrow> p \<noteq> [] \<and> p \<in> set sourceParticipants)"

definition slotEmpty :: "string option \<Rightarrow> bool" where
  "slotEmpty s = (s = None \<or> s = Some [])"

datatype AutoChoice = OverwriteRed | OverwriteWhite | LeaveUnchanged

text \<open>The five ordered rules of the Auto policy: which slot the policy picks.\<close>

definition autoPolicy :: "Match \<Rightarrow> string list \<Rightarrow> AutoChoice" where
  "autoPolicy m sourceParticipants =
     (if holdsSourceParticipant sourceParticipants (redPlayerId m) then OverwriteRed
      else if holdsSourceParticipant sourceParticipants (whitePlayerId m) then OverwriteWhite
      else if slotEmpty (redPlayerId m) then OverwriteRed
      else if slotEmpty (whitePlayerId m) then OverwriteWhite
      else LeaveUnchanged)"

definition applyChoice :: "AutoChoice \<Rightarrow> string \<Rightarrow> Match \<Rightarrow> Match" where
  "applyChoice c playerId m =
     (case c of
        OverwriteRed \<Rightarrow> m\<lparr>redPlayerId := Some playerId\<rparr>
      | OverwriteWhite \<Rightarrow> m\<lparr>whitePlayerId := Some playerId\<rparr>
      | LeaveUnchanged \<Rightarrow> m)"

text \<open>
  What an edge with target slot \<open>s\<close> does to its target match when the player \<open>p\<close> advances
  along it, in the words of the specification: an explicit slot is overwritten, the Auto
  slot follows the Auto policy.
\<close>

definition advanceInto :: "Slot option \<Rightarrow> string \<Rightarrow> string list \<Rightarrow> Match \<Rightarrow> Match" where
  "advanceInto s p sourceParticipants y =
     (case s of
        Some Red \<Rightarrow> y\<lparr>redPlayerId := Some p\<rparr>
      | Some White \<Rightarrow> y\<lparr>whitePlayerId := Some p\<rparr>
      | None \<Rightarrow> applyChoice (autoPolicy y sourceParticipants) p y)"

section \<open>Progression engine: result submission\<close>

text \<open>
  The component state the two handlers read and write: the stored tournaments, the
  tournament being edited, the match whose score dialog is open and the score form.
\<close>

record ScoreForm =
  form_red :: int
  form_white :: int
  form_details :: string

record AppState =
  tournaments :: "TournamentData list"
  editorData :: "TournamentData option"
  activeMatchId :: "int option"
  scoreForm :: ScoreForm

text \<open>
  The handlers return nothing; what a call did is made a value here. \<open>Returned\<close> is a
  bare \<open>return\<close>, \<open>Alerted\<close> an \<open>alert(...)\<close> followed by \<open>return\<close>, \<open>Persisted\<close> the run to
  \<open>persistTournament\<close>. The two alert texts are not ASCII; they are named after the
  errors of the specification: \<open>TiedScoreError\<close> is the alert of \<open>submitScore\<close> on equal
  scores, \<open>NoEligiblePlayerError\<close> the alert of \<open>handleWalkover\<close> on a match without a
  player.
\<close>

datatype Alert = TiedScoreError | NoEligiblePlayerError

datatype Outcome = Persisted | Returned | Alerted Alert

fun findIndex :: "('a \<Rightarrow> bool) \<Rightarrow> 'a list \<Rightarrow> nat option" where
  "findIndex P [] = None"
| "findIndex P (x # xs) = (if P x then Some 0 else map_option Suc (findIndex P xs))"

text \<open>
  \<open>persistTournament\<close> (lines 92-104); \<open>now\<close> is the value of \<open>Date.now()\<close>. Storage and
  the list of tournaments hold the same value, so only the list is modelled.
\<close>

definition persistTournament :: "AppState \<Rightarrow> TournamentData \<Rightarrow> int \<Rightarrow> AppState" where
  "persistTournament st data now =
     (let updated = data\<lparr>lastUpdated := now\<rparr>;
          newStats =
            (case findIndex (\<lambda>t. tournament_id t = tournament_id updated) (tournaments st) of
               Some existingIdx \<Rightarrow> (tournaments st)[existingIdx := updated]
             | None \<Rightarrow> tournaments st @ [updated])
      in st\<lparr>tournaments := newStats, editorData := Some updated\<rparr>)"

text \<open>\<open>matches.map(m => m.id === matchId ? { ...m, result } : m)\<close>\<close>

definition setResult :: "Match list \<Rightarrow> int \<Rightarrow> MatchResult \<Rightarrow> Match list" where
  "setResult ms matchId res =
     map (\<lambda>m. if match_id m = matchId then m\<lparr>result := Some res\<rparr> else m) ms"

text \<open>\<open>[a, b].filter(Boolean)\<close> on slots.\<close>

definition filterBoolean :: "string option list \<Rightarrow> string list" where
  "filterBoolean xs =
     concat (map (\<lambda>s. case s of None \<Rightarrow> [] | Some v \<Rightarrow> if v = [] then [] else [v]) xs)"

text \<open>
  \<open>handleWalkover\<close> (lines 286-319). \<open>confirmed\<close> is the answer to the \<open>confirm(...)\<close>
  dialog. \<open>match.redPlayerId || match.whitePlayerId\<close> is the red slot when it is truthy and
  the white slot otherwise. The details text is the ASCII part of the source's literal.
  The branch on \<open>match.loserToMatchId\<close> has an empty body in the source.
\<close>

definition handleWalkover :: "AppState \<Rightarrow> int \<Rightarrow> bool \<Rightarrow> int \<Rightarrow> Outcome \<times> AppState" where
  "handleWalkover st matchId confirmed now =
     (case editorData st of
        None \<Rightarrow> (Returned, st)
      | Some data \<Rightarrow>
          if \<not> confirmed then (Returned, st)
          else
            (case find (\<lambda>m. match_id m = matchId) (matches data) of
               None \<Rightarrow> (Returned, st)
             | Some mtch \<Rightarrow>
                 (case (if truthy (redPlayerId mtch) then redPlayerId mtch
                        else whitePlayerId mtch) of
                    None \<Rightarrow> (Alerted NoEligiblePlayerError, st)
                  | Some winner \<Rightarrow>
                      if winner = [] then (Alerted NoEligiblePlayerError, st)
                      else
                        (let res = \<lparr>winnerId = winner, redScore = 0, whiteScore = 0,
                                    details = ''(Walkover)''\<rparr>;
                             sourceParticipants =
                               filterBoolean [redPlayerId mtch, whitePlayerId mtch];
                             updatedMatches = setResult (matches data) matchId res;
                             updatedMatches' =
                               (case winnerToMatchId mtch of
                                  None \<Rightarrow> updatedMatches
                                | Some w \<Rightarrow>
                                    if w = 0 then updatedMatches
                                    else placePlayerInMatch updatedMatches w winner
                                           (winnerToSlot mtch) sourceParticipants)
                         in (Persisted,
                             persistTournament st (data\<lparr>matches := updatedMatches'\<rparr>) now)))))"

text \<open>
  \<open>submitScore\<close> (lines 321-362). It reads the open match and the score form from the
  state, and closes the dialog (\<open>setActiveMatchId(null)\<close>) after persisting. The pair
  chosen by the score comparison is (winner, loser); its third branch is the alert.
\<close>

definition submitScore :: "AppState \<Rightarrow> int \<Rightarrow> Outcome \<times> AppState" where
  "submitScore st now =
     (case (activeMatchId st, editorData st) of
        (Some active, Some data) \<Rightarrow>
          (case find (\<lambda>m. match_id m = active) (matches data) of
             None \<Rightarrow> (Returned, st)
           | Some mtch \<Rightarrow>
               (case (redPlayerId mtch, whitePlayerId mtch) of
                  (Some redP, Some whiteP) \<Rightarrow>
                    if redP = [] \<or> whiteP = [] then (Returned, st)
                    else
                      (case (if form_red (scoreForm st) > form_white (scoreForm st)
                               then Some (redP, whiteP)
                             else if form_white (scoreForm st) > form_red (scoreForm st)
                               then Some (whiteP, redP)
                             else None) of
                         None \<Rightarrow> (Alerted TiedScoreError, st)
                       | Some (winner, loser) \<Rightarrow>
                           (let res = \<lparr>winnerId = winner, redScore = form_red (scoreForm st),
                                       whiteScore = form_white (scoreForm st),
                                       details = form_details (scoreForm st)\<rparr>;
                                sourceParticipants = [redP, whiteP];
                                updatedMatches = setResult (matches data) active res;
                                updatedMatches' =
                                  (case winnerToMatchId mtch of
                                     None \<Rightarrow> updatedMatches
                                   | Some w \<Rightarrow>
                                       if w = 0 then updatedMatches
                                       else placePlayerInMatch updatedMatches w winner
                                              (winnerToSlot mtch) sourceParticipants);
                                updatedMatches'' =
                                  (case loserToMatchId mtch of
                                     None \<Rightarrow> updatedMatches'
                                   | Some l \<Rightarrow>
                                       if l = 0 then updatedMatches'
                                       else placePlayerInMatch updatedMatches' l loser
                                              (loserToSlot mtch) sourceParticipants)
                            in (Persisted,
                                (persistTournament st (data\<lparr>matches := updatedMatches''\<rparr>) now)
                                  \<lparr>activeMatchId := None\<rparr>)))
                | _ \<Rightarrow> (Returned, st)))
      | _ \<Rightarrow> (Returned, st))"

text \<open>The score dialog: \<open>setActiveMatchId(id)\<close> and typing the two scores.\<close>

definition enterScore :: "AppState \<Rightarrow> int \<Rightarrow> int \<Rightarrow> int \<Rightarrow> AppState" where
  "enterScore st matchId r w =
     st\<lparr>activeMatchId := Some matchId,
        scoreForm := \<lparr>form_red = r, form_white = w, form_details = []\<rparr>\<rparr>"

section \<open>Ranking derivation\<close>

text \<open>
  \<open>getRankings\<close> (lines 365-477). An entry of the result carries the title, the player's
  name and the rank order. The titles are the ASCII part of the source's literals. The
  two accumulators of the source are the fields of \<open>RankState\<close>; the \<open>Set\<close> of processed
  players is the list of its elements in insertion order.
\<close>

record Ranking =
  rank_title :: string
  rank_name :: string
  rankOrder :: int

record RankState =
  rankings :: "Ranking list"
  processedPlayers :: "string list"

definition addRanking :: "Player list \<Rightarrow> string option \<Rightarrow> string \<Rightarrow> int \<Rightarrow> RankState \<Rightarrow> RankState" where
  "addRanking pls pid ttl order st =
     (case pid of
        None \<Rightarrow> st
      | Some p \<Rightarrow>
          if p = [] then st
          else if p \<in> set (processedPlayers st) then st
          else
            (case find (\<lambda>pl. player_id pl = p) pls of
               None \<Rightarrow> st
             | Some pl \<Rightarrow>
                 st\<lparr>rankings := rankings st
                        @ [\<lparr>rank_title = ttl, rank_name = name pl, rankOrder = order\<rparr>],
                    processedPlayers := processedPlayers st @ [p]\<rparr>))"

text \<open>
  \<open>result.winnerId === m.redPlayerId ? m.whitePlayerId : m.redPlayerId\<close>, the expression
  every loop of \<open>getRankings\<close> uses for the loser.
\<close>

definition loserOf :: "Match \<Rightarrow> MatchResult \<Rightarrow> string option" where
  "loserOf m r = (if Some (winnerId r) = redPlayerId m then whitePlayerId m else redPlayerId m)"

text \<open>The body of the two loops over roots: winner at one title, loser at the next.\<close>

definition rankRoot ::
  "Player list \<Rightarrow> string \<Rightarrow> int \<Rightarrow> string \<Rightarrow> int \<Rightarrow> Match \<Rightarrow> RankState \<Rightarrow> RankState" where
  "rankRoot pls t1 o1 t2 o2 root st =
     (case result root of
        None \<Rightarrow> st
      | Some r \<Rightarrow> addRanking pls (loserOf root r) t2 o2 (addRanking pls (Some (winnerId r)) t1 o1 st))"

text \<open>The body of the three loops over feeder matches: the loser at one title.\<close>

definition rankLoser :: "Player list \<Rightarrow> string \<Rightarrow> int \<Rightarrow> Match \<Rightarrow> RankState \<Rightarrow> RankState" where
  "rankLoser pls ttl order m st =
     (case result m of
        None \<Rightarrow> st
      | Some r \<Rightarrow> addRanking pls (loserOf m r) ttl order st)"

definition getLosersOfFeeders :: "Match list \<Rightarrow> int list \<Rightarrow> Match list" where
  "getLosersOfFeeders ms targetMatchIds =
     filter (\<lambda>m. case winnerToMatchId m of
                   None \<Rightarrow> False
                 | Some w \<Rightarrow> w \<noteq> 0 \<and> w \<in> set targetMatchIds) ms"

definition isFedByLoser :: "Match list \<Rightarrow> Match \<Rightarrow> bool" where
  "isFedByLoser ms root = list_ex (\<lambda>m. loserToMatchId m = Some (match_id root)) ms"

text \<open>
  \<open>xs.sort((a,b) => b.id - a.id)\<close>: the sort of JavaScript is stable, as \<open>sort_key\<close> is.
\<close>

definition sortDesc :: "Match list \<Rightarrow> Match list" where
  "sortDesc ms = sort_key (\<lambda>m. - match_id m) ms"

text \<open>\<open>xs.slice(0, limit)\<close>; a negative end counts from the end of the array.\<close>

definition slice0 :: "'a list \<Rightarrow> int \<Rightarrow> 'a list" where
  "slice0 xs limit =
     (if limit < 0 then take (nat (int (length xs) + limit)) xs else take (nat limit) xs)"

text \<open>The accumulators when every loop of \<open>getRankings\<close> has run, before the final sort.\<close>

definition rankingState :: "TournamentData \<Rightarrow> int \<Rightarrow> RankState" where
  "rankingState data limit =
     (let ms = matches data;
          pls = players data;
          rootMatches = filter (\<lambda>m. \<not> truthy_num (winnerToMatchId m)) ms;
          mainRoots = sortDesc (filter (\<lambda>root. \<not> isFedByLoser ms root) rootMatches);
          consolationRoots = sortDesc (filter (\<lambda>root. isFedByLoser ms root) rootMatches);
          st0 = \<lparr>rankings = [], processedPlayers = []\<rparr>;
          st1 = fold (rankRoot pls ''(Champion)'' 1 ''(2nd Place)'' 2) mainRoots st0;
          st2 = fold (rankRoot pls ''(3rd Place)'' 3 ''(4th Place)'' 4) consolationRoots st1;
          mainRootIds = map match_id mainRoots;
          semiMatches = getLosersOfFeeders ms mainRootIds;
          st3 = (if consolationRoots = []
                 then fold (rankLoser pls ''(3rd Place - Joint)'' 3) semiMatches st2
                 else st2);
          qfMatches = getLosersOfFeeders ms (map match_id semiMatches);
          r16Matches = getLosersOfFeeders ms (map match_id qfMatches)
      in if limit > 4
         then (let st4 = fold (rankLoser pls ''(5th Place)'' 5) qfMatches st3
               in if limit > 8 then fold (rankLoser pls ''(9th Place)'' 9) r16Matches st4
                  else st4)
         else st3)"

definition getRankings :: "TournamentData option \<Rightarrow> int \<Rightarrow> Ranking list" where
  "getRankings ed limit =
     (case ed of
        None \<Rightarrow> []
      | Some data \<Rightarrow> slice0 (sort_key rankOrder (rankings (rankingState data limit))) limit)"

text \<open>
  For stating that no player is ranked twice: the returned entries, each paired with the
  id of the player it was pushed for (the two accumulators grow together, so the entry at
  a position belongs to the processed player at that position).
\<close>

definition rankedWithIds :: "TournamentData \<Rightarrow> int \<Rightarrow> (string \<times> Ranking) list" where
  "rankedWithIds data limit =
     slice0 (sort_key (\<lambda>e. rankOrder (snd e))
               (zip (processedPlayers (rankingState data limit))
                    (rankings (rankingState data limit)))) limit"

text \<open>
  The invariant of the two accumulators: no processed player twice, one entry per
  processed player, and each entry carries the name of the player at its position.
\<close>

definition rankInv :: "Player list \<Rightarrow> RankState \<Rightarrow> bool" where
  "rankInv pls st =
     (distinct (processedPlayers st)
      \<and> length (rankings st) = length (processedPlayers st)
      \<and> list_all (\<lambda>e. map_option name (find (\<lambda>pl. player_id pl = fst e) pls)
                          = Some (rank_name (snd e)))
            (zip (processedPlayers st) (rankings st)))"

section \<open>Round layout (BracketTree.tsx)\<close>

text \<open>
  The \<open>Map\<close> from match id to depth is an association list: \<open>get\<close> is \<open>map_of\<close>, \<open>set\<close> is
  \<open>AList.update\<close> (in place for a present key, appended for a new one), \<open>has\<close> is
  \<open>map_of \<dots> \<noteq> None\<close>.
\<close>

definition maxDepth :: int where
  "maxDepth = 10"

definition feeders :: "Match list \<Rightarrow> int \<Rightarrow> Match list" where
  "feeders ms matchId =
     filter (\<lambda>m. winnerToMatchId m = Some matchId \<or> loserToMatchId m = Some matchId) ms"

text \<open>\<open>matchDepthMap.get(matchId) || -1\<close>: a missing key and the depth \<open>0\<close> both give \<open>-1\<close>.\<close>

definition existingDepth :: "(int \<times> int) list \<Rightarrow> int \<Rightarrow> int" where
  "existingDepth mp matchId =
     (case map_of mp matchId of None \<Rightarrow> - 1 | Some v \<Rightarrow> if v = 0 then - 1 else v)"

function (domintros) calculateDepth :: "Match list \<Rightarrow> (int \<times> int) list \<Rightarrow> int \<Rightarrow> int \<Rightarrow> (int \<times> int) list" where
  "calculateDepth ms mp matchId currentDepth =
     (if currentDepth > maxDepth then mp
      else fold (\<lambda>f mp'. calculateDepth ms mp' (match_id f) (currentDepth + 1))
             (feeders ms matchId)
             (if currentDepth > existingDepth mp matchId
              then AList.update matchId currentDepth mp else mp))"
  by pat_completeness auto
termination
  by (relation "measure (\<lambda>(ms, mp, matchId, currentDepth). nat (maxDepth + 1 - currentDepth))")
     auto

declare calculateDepth.simps [simp del]

text \<open>The body of the loop over all matches that places the matches the traversal missed.\<close>

definition placeOrphan :: "Match list \<Rightarrow> Match \<Rightarrow> (int \<times> int) list \<Rightarrow> (int \<times> int) list" where
  "placeOrphan ms m mp =
     (if map_of mp (match_id m) \<noteq> None then mp
      else
        (case find (\<lambda>p. Some (match_id p) = winnerToMatchId m
                        \<or> Some (match_id p) = loserToMatchId m) ms of
           None \<Rightarrow> AList.update (match_id m) 0 mp
         | Some parent \<Rightarrow>
             (case map_of mp (match_id parent) of
                None \<Rightarrow> AList.update (match_id m) 0 mp
              | Some parentDepth \<Rightarrow> calculateDepth ms mp (match_id m) (parentDepth + 1))))"

definition matchDepthMap :: "Match list \<Rightarrow> int \<Rightarrow> (int \<times> int) list" where
  "matchDepthMap ms rootMatchId = fold (placeOrphan ms) ms (calculateDepth ms [] rootMatchId 0)"

text \<open>\<open>Math.max(...values, 0)\<close>\<close>

definition maxFoundDepth :: "(int \<times> int) list \<Rightarrow> int" where
  "maxFoundDepth mp = fold max (map snd mp) 0"

definition levels :: "Match list \<Rightarrow> int \<Rightarrow> Match list list" where
  "levels ms rootMatchId =
     (let mp = matchDepthMap ms rootMatchId
      in map (\<lambda>d. sort_key match_id (filter (\<lambda>m. map_of mp (match_id m) = Some d) ms))
           (rev [0..maxFoundDepth mp]))"

subsection \<open>Notions for stating the layout properties\<close>

text \<open>
  The ids that a reverse traversal from \<open>x\<close> reaches along at most \<open>n\<close> edges (an edge
  runs from a match to the match its winner or loser goes to; the traversal follows it
  backwards, from a match to its feeders).
\<close>

fun reachable :: "Match list \<Rightarrow> int \<Rightarrow> nat \<Rightarrow> int list" where
  "reachable ms x 0 = [x]"
| "reachable ms x (Suc n) = x # concat (map (\<lambda>f. reachable ms (match_id f) n) (feeders ms x))"

text \<open>Every depth of \<open>mp\<close> is still there in \<open>mp'\<close>, and not smaller.\<close>

definition depthLe :: "(int \<times> int) list \<Rightarrow> (int \<times> int) list \<Rightarrow> bool" where
  "depthLe mp mp' =
     (\<forall>k v. map_of mp k = Some v \<longrightarrow> (\<exists>v'. map_of mp' k = Some v' \<and> v \<le> v'))"

text \<open>
  Every match whose depth is new in \<open>mp'\<close> and below the cap has all its feeders at a
  greater depth in \<open>mp'\<close>.
\<close>

definition freshOk :: "Match list \<Rightarrow> (int \<times> int) list \<Rightarrow> (int \<times> int) list \<Rightarrow> bool" where
  "freshOk ms mp mp' =
     (\<forall>b db. map_of mp' b = Some db \<and> map_of mp b \<noteq> Some db \<and> db < maxDepth \<longrightarrow>
        (\<forall>a \<in> set (feeders ms b). \<exists>da. map_of mp' (match_id a) = Some da \<and> db < da))"

text \<open>No depth is negative.\<close>

definition nonneg :: "(int \<times> int) list \<Rightarrow> bool" where
  "nonneg mp = (\<forall>k v. map_of mp k = Some v \<longrightarrow> 0 \<le> v)"

text \<open>The key \<open>k\<close> has a depth of at least \<open>c\<close>.\<close>

definition atLeastDepth :: "(int \<times> int) list \<Rightarrow> int \<Rightarrow> int \<Rightarrow> bool" where
  "atLeastDepth mp k c = (\<exists>v. map_of mp k = Some v \<and> c \<le> v)"

text \<open>
  Every match of \<open>R\<close> whose depth is below the cap has all its feeders at a greater
  depth.
\<close>

definition edgesOk :: "Match list \<Rightarrow> int set \<Rightarrow> (int \<times> int) list \<Rightarrow> bool" where
  "edgesOk ms R mp =
     (\<forall>b \<in> R. \<forall>db. map_of mp b = Some db \<and> db < maxDepth \<longrightarrow>
        (\<forall>a \<in> set (feeders ms b). \<exists>da. map_of mp (match_id a) = Some da \<and> db < da))"

text \<open>
  The invariant of the loop that places the missed matches; \<open>mp0\<close> is the map the
  traversal from the root left.
\<close>

definition orphanInv :: "Match list \<Rightarrow> (int \<times> int) list \<Rightarrow> (int \<times> int) list \<Rightarrow> bool" where
  "orphanInv ms mp0 mp =
     (nonneg mp \<and> depthLe mp0 mp \<and> edgesOk ms (dom (map_of mp0)) mp)"

text \<open>No depth is above the cap.\<close>

definition capped :: "(int \<times> int) list \<Rightarrow> bool" where
  "capped mp = (\<forall>k v. map_of mp k = Some v \<longrightarrow> v \<le> maxDepth)"

text \<open>
  The match \<open>m\<close> has a depth, or the first match that it targets has a depth at (or
  above) the cap.
\<close>

definition settled :: "Match list \<Rightarrow> (int \<times> int) list \<Rightarrow> Match \<Rightarrow> bool" where
  "settled ms mp m =
     (map_of mp (match_id m) \<noteq> None
      \<or> (\<exists>parent pd.
            find (\<lambda>p. Some (match_id p) = winnerToMatchId m
                        \<or> Some (match_id p) = loserToMatchId m) ms = Some parent
            \<and> map_of mp (match_id parent) = Some pd \<and> maxDepth \<le> pd))"

text \<open>
  Every match whose depth is above 0 and below the cap has all its feeders at a greater
  depth.
\<close>

definition posOk :: "Match list \<Rightarrow> (int \<times> int) list \<Rightarrow> bool" where
  "posOk ms mp =
     (\<forall>b db. map_of mp b = Some db \<and> 0 < db \<and> db < maxDepth \<longrightarrow>
        (\<forall>a \<in> set (feeders ms b). \<exists>da. map_of mp (match_id a) = Some da \<and> db < da))"

section \<open>Example tournaments\<close>

text \<open>A match as \<open>initializeMatches\<close> (lines 214-231) creates it.\<close>

definition initialMatch :: "int \<Rightarrow> Match" where
  "initialMatch i =
     \<lparr>match_id = i, redPlayerId = None, whitePlayerId = None,
      winnerToMatchId = None, winnerToSlot = None,
      loserToMatchId = None, loserToSlot = None, result = None\<rparr>"

definition examplePlayers :: "Player list" where
  "examplePlayers =
     [\<lparr>player_id = ''p1'', name = ''Aoki''\<rparr>, \<lparr>player_id = ''p2'', name = ''Baba''\<rparr>,
      \<lparr>player_id = ''p3'', name = ''Chiba''\<rparr>, \<lparr>player_id = ''p4'', name = ''Doi''\<rparr>]"

definition exampleData :: "Match list \<Rightarrow> TournamentData" where
  "exampleData ms =
     \<lparr>tournament_id = ''t1'', lastUpdated = 0, title = ''Cup'', players = examplePlayers,
      matches = ms, totalMatches = int (length ms), status = ACTIVE\<rparr>"

definition exampleState :: "Match list \<Rightarrow> AppState" where
  "exampleState ms =
     \<lparr>tournaments = [exampleData ms], editorData = Some (exampleData ms),
      activeMatchId = None,
      scoreForm = \<lparr>form_red = 0, form_white = 0, form_details = []\<rparr>\<rparr>"

text \<open>A first-round match with two players, feeding match 2 by the Auto slot.\<close>

definition readyMatch :: Match where
  "readyMatch = (initialMatch 1)\<lparr>redPlayerId := Some ''p1'', whitePlayerId := Some ''p2'',
                                winnerToMatchId := Some 2\<rparr>"

text \<open>A bye: one player, the winner goes to match 2 and the loser edge to match 3.\<close>

definition byeMatch :: Match where
  "byeMatch = (initialMatch 1)\<lparr>redPlayerId := Some ''p1'', winnerToMatchId := Some 2,
                              loserToMatchId := Some 3\<rparr>"

text \<open>A bye whose winner and loser both go to match 2 (a rematch), to different slots.\<close>

definition rematchBye :: Match where
  "rematchBye = (initialMatch 1)\<lparr>redPlayerId := Some ''p1'',
                                 winnerToMatchId := Some 2, winnerToSlot := Some Red,
                                 loserToMatchId := Some 2, loserToSlot := Some White\<rparr>"

text \<open>
  A semi-final whose loser meets the winner again in the final (the second finalist was
  entered by hand): the loser of match 1 is also the loser of the final.
\<close>

definition rematchFinal :: "Match list" where
  "rematchFinal =
     [(initialMatch 1)\<lparr>redPlayerId := Some ''p1'', whitePlayerId := Some ''p2'',
         winnerToMatchId := Some 2,
         result := Some \<lparr>winnerId = ''p1'', redScore = 2, whiteScore = 0, details = []\<rparr>\<rparr>,
      (initialMatch 2)\<lparr>redPlayerId := Some ''p1'', whitePlayerId := Some ''p2'',
         result := Some \<lparr>winnerId = ''p1'', redScore = 1, whiteScore = 0, details = []\<rparr>\<rparr>]"

text \<open>
  The three-match bracket of the specification's scenario: match 1 sends its winner to the
  Red slot of match 3, match 2 to the White slot of match 3, match 3 is a root. The four
  players have the ids \<open>a b c d\<close> and the names \<open>na nb nc nd\<close>.
\<close>

definition scenarioMatches :: "string \<Rightarrow> string \<Rightarrow> string \<Rightarrow> string \<Rightarrow> Match list" where
  "scenarioMatches a b c d =
     [(initialMatch 1)\<lparr>redPlayerId := Some a, whitePlayerId := Some b,
                       winnerToMatchId := Some 3, winnerToSlot := Some Red\<rparr>,
      (initialMatch 2)\<lparr>redPlayerId := Some c, whitePlayerId := Some d,
                       winnerToMatchId := Some 3, winnerToSlot := Some White\<rparr>,
      initialMatch 3]"

definition scenarioStart ::
  "string \<Rightarrow> string \<Rightarrow> string \<Rightarrow> string \<Rightarrow> string \<Rightarrow> string \<Rightarrow> string \<Rightarrow> string \<Rightarrow> AppState" where
  "scenarioStart a b c d na nb nc nd =
     \<lparr>tournaments = [],
      editorData = Some
        \<lparr>tournament_id = ''t1'', lastUpdated = 0, title = ''Cup'',
         players = [\<lparr>player_id = a, name = na\<rparr>, \<lparr>player_id = b, name = nb\<rparr>,
                    \<lparr>player_id = c, name = nc\<rparr>, \<lparr>player_id = d, name = nd\<rparr>],
         matches = scenarioMatches a b c d, totalMatches = 3, status = ACTIVE\<rparr>,
      activeMatchId = None,
      scoreForm = \<lparr>form_red = 0, form_white = 0, form_details = []\<rparr>\<rparr>"

text \<open>Match 1 is scored 3-1 and match 2 is scored 0-2.\<close>

definition scenarioSemisPlayed ::
  "string \<Rightarrow> string \<Rightarrow> string \<Rightarrow> string \<Rightarrow> string \<Rightarrow> string \<Rightarrow> string \<Rightarrow> string \<Rightarrow> AppState" where
  "scenarioSemisPlayed a b c d na nb nc nd =
     snd (submitScore
            (enterScore (snd (submitScore
                                (enterScore (scenarioStart a b c d na nb nc nd) 1 3 1) 1))
               2 0 2) 2)"

text \<open>Then match 3 is scored 2-1.\<close>

definition scenarioFinalPlayed ::
  "string \<Rightarrow> string \<Rightarrow> string \<Rightarrow> string \<Rightarrow> string \<Rightarrow> string \<Rightarrow> string \<Rightarrow> string \<Rightarrow> AppState" where
  "scenarioFinalPlayed a b c d na nb nc nd =
     snd (submitScore (enterScore (scenarioSemisPlayed a b c d na nb nc nd) 3 2 1) 3)"

text \<open>
  A chain of thirteen matches, each sending its winner to the next; match 13 is the final
  (its id is the number of matches, which is the root the layout is given).
\<close>

definition chainMatch :: "int \<Rightarrow> Match" where
  "chainMatch i = (initialMatch i)\<lparr>winnerToMatchId := (if i < 13 then Some (i + 1) else None)\<rparr>"

definition chain13 :: "Match list" where
  "chain13 = map chainMatch [1..13]"

text \<open>
  Two roots: match 1 sends its winner to match 2, match 3 stands alone and is the root
  the layout is given.
\<close>

definition twoRoots :: "Match list" where
  "twoRoots = [(initialMatch 1)\<lparr>winnerToMatchId := Some 2\<rparr>, initialMatch 2, initialMatch 3]"

text \<open>Four matches with a third-place match: the semi-finals 1 and 2 send winners to
  the final 4 and losers to match 3.\<close>

definition withThirdPlace :: "Match list" where
  "withThirdPlace =
     [(initialMatch 1)\<lparr>winnerToMatchId := Some 4, loserToMatchId := Some 3\<rparr>,
      (initialMatch 2)\<lparr>winnerToMatchId := Some 4, loserToMatchId := Some 3\<rparr>,
      initialMatch 3, initialMatch 4]"

text \<open>
  A side bracket the root does not belong to: match 4 sends its winner to match 2, match 2
  to match 1; match 3 stands alone and is the root the layout is given.
\<close>

definition sideBracket :: "Match list" where
  "sideBracket =
     [initialMatch 1, (initialMatch 2)\<lparr>winnerToMatchId := Some 1\<rparr>, initialMatch 3,
      (initialMatch 4)\<lparr>winnerToMatchId := Some 2\<rparr>]"

section \<open>Placement: theorems\<close>

text \<open>
  Claim C2. With the Auto (\<open>null\<close>) target slot, placement leaves every match other than
  the target as it is, and rewrites the target by the ordered policy: Red if Red holds a
  source participant, else White if White holds one, else Red if Red is empty, else White
  if White is empty, else the match is unchanged.
\<close>

theorem placePlayerInMatch_auto_policy:
  "placePlayerInMatch ms targetMatchId playerId None sourceParticipants =
     map (\<lambda>m. if match_id m = targetMatchId
               then applyChoice (autoPolicy m sourceParticipants) playerId m
               else m) ms"
  unfolding placePlayerInMatch_def
  by (rule map_cong [OF refl])
     (auto simp: autoPolicy_def applyChoice_def truthy_def includes_str_def
        holdsSourceParticipant_def slotEmpty_def split: option.splits)

theorem placePlayerInMatch_auto_policy_witness:
  "placePlayerInMatch [readyMatch, initialMatch 2] 1 ''p3'' None [''p2''] =
     [readyMatch\<lparr>whitePlayerId := Some ''p3''\<rparr>, initialMatch 2]
   \<and> placePlayerInMatch [readyMatch, initialMatch 2] 2 ''p3'' None [''p2''] =
     [readyMatch, (initialMatch 2)\<lparr>redPlayerId := Some ''p3''\<rparr>]
   \<and> placePlayerInMatch [readyMatch, initialMatch 2] 1 ''p3'' None [''p4''] =
     [readyMatch, initialMatch 2]"
  unfolding placePlayerInMatch_auto_policy
  by (simp add: readyMatch_def initialMatch_def autoPolicy_def applyChoice_def
      holdsSourceParticipant_def slotEmpty_def)

lemma place_explicit_Red:
  "placePlayerInMatch ms t p (Some Red) sp =
     map (\<lambda>m. if match_id m = t then m\<lparr>redPlayerId := Some p\<rparr> else m) ms"
  by (simp add: placePlayerInMatch_def)

lemma place_explicit_White:
  "placePlayerInMatch ms t p (Some White) sp =
     map (\<lambda>m. if match_id m = t then m\<lparr>whitePlayerId := Some p\<rparr> else m) ms"
  by (simp add: placePlayerInMatch_def)

text \<open>
  Claim C8. Placement with an explicit Red or White target slot, applied twice (with any
  source participants the second time), gives the matches that one application gives; and
  after it every match with the target id holds the placed player in the targeted slot,
  whatever the slot held before.
\<close>

theorem explicit_placement_idempotent:
  "placePlayerInMatch (placePlayerInMatch ms t p (Some s) sp) t p (Some s) sp'
     = placePlayerInMatch ms t p (Some s) sp
   \<and> (\<forall>m \<in> set (placePlayerInMatch ms t p (Some Red) sp).
         match_id m = t \<longrightarrow> redPlayerId m = Some p)
   \<and> (\<forall>m \<in> set (placePlayerInMatch ms t p (Some White) sp).
         match_id m = t \<longrightarrow> whitePlayerId m = Some p)"
proof (intro conjI)
  show "placePlayerInMatch (placePlayerInMatch ms t p (Some s) sp) t p (Some s) sp'
          = placePlayerInMatch ms t p (Some s) sp"
    by (cases s) (simp_all add: place_explicit_Red place_explicit_White)
  show "\<forall>m \<in> set (placePlayerInMatch ms t p (Some Red) sp).
          match_id m = t \<longrightarrow> redPlayerId m = Some p"
    by (simp only: place_explicit_Red set_map ball_simps) simp
  show "\<forall>m \<in> set (placePlayerInMatch ms t p (Some White) sp).
          match_id m = t \<longrightarrow> whitePlayerId m = Some p"
    by (simp only: place_explicit_White set_map ball_simps) simp
qed

theorem explicit_placement_idempotent_witness:
  "placePlayerInMatch (placePlayerInMatch [readyMatch, initialMatch 2] 1 ''p3'' (Some Red) [])
       1 ''p3'' (Some Red) [''p1'']
     = [readyMatch\<lparr>redPlayerId := Some ''p3''\<rparr>, initialMatch 2]
   \<and> placePlayerInMatch [readyMatch, initialMatch 2] 1 ''p3'' (Some Red) []
     = [readyMatch\<lparr>redPlayerId := Some ''p3''\<rparr>, initialMatch 2]
   \<and> redPlayerId (hd (placePlayerInMatch [readyMatch, initialMatch 2] 1 ''p3'' (Some Red) []))
     = Some ''p3''"
  using explicit_placement_idempotent [of "[readyMatch, initialMatch 2]" 1 "''p3''" Red "[]" "[''p1'']"]
  by (simp add: place_explicit_Red readyMatch_def initialMatch_def)

section \<open>Result submission: theorems\<close>

lemma truthyE: "truthy s \<Longrightarrow> (\<And>v. s = Some v \<Longrightarrow> v \<noteq> [] \<Longrightarrow> P) \<Longrightarrow> P"
  by (cases s) (auto simp: truthy_def)

lemma place_length: "length (placePlayerInMatch ms t p s sp) = length ms"
  by (simp add: placePlayerInMatch_def)

lemma place_nth_other:
  "i < length ms \<Longrightarrow> match_id (ms ! i) \<noteq> t \<Longrightarrow> placePlayerInMatch ms t p s sp ! i = ms ! i"
  by (simp add: placePlayerInMatch_def)

lemma setResult_length: "length (setResult ms mid r) = length ms"
  by (simp add: setResult_def)

lemma setResult_nth:
  "i < length ms \<Longrightarrow>
   setResult ms mid r ! i = (if match_id (ms ! i) = mid then (ms ! i)\<lparr>result := Some r\<rparr> else ms ! i)"
  by (simp add: setResult_def)

lemma persist_editorData:
  "editorData (persistTournament st data now) = Some (data\<lparr>lastUpdated := now\<rparr>)"
  by (simp add: persistTournament_def Let_def)

text \<open>
  Claim C3. When the score dialog is open for a match with both slots occupied and the
  two scores of the form are equal, \<open>submitScore\<close> alerts (the tied-score error) and
  returns the state it was given: no result is set, no match changes, nothing is
  persisted.
\<close>

theorem submitScore_tie_rejected:
  assumes "editorData st = Some data" "activeMatchId st = Some mid"
    "find (\<lambda>m. match_id m = mid) (matches data) = Some m"
    "truthy (redPlayerId m)" "truthy (whitePlayerId m)"
    "form_red (scoreForm st) = form_white (scoreForm st)"
  shows "submitScore st now = (Alerted TiedScoreError, st)"
proof -
  from assms(4) obtain r where r: "redPlayerId m = Some r" "r \<noteq> []" by (rule truthyE)
  from assms(5) obtain w where w: "whitePlayerId m = Some w" "w \<noteq> []" by (rule truthyE)
  show ?thesis
    by (simp add: submitScore_def assms(1,2,3,6) r w)
qed

theorem submitScore_tie_rejected_witness:
  "submitScore (enterScore (exampleState [readyMatch, initialMatch 2]) 1 2 2) 9 =
     (Alerted TiedScoreError, enterScore (exampleState [readyMatch, initialMatch 2]) 1 2 2)"
  using submitScore_tie_rejected
    [of "enterScore (exampleState [readyMatch, initialMatch 2]) 1 2 2"
        "exampleData [readyMatch, initialMatch 2]" 1 readyMatch 9]
  by (simp add: enterScore_def exampleState_def exampleData_def readyMatch_def
      initialMatch_def truthy_def)

text \<open>
  Claim C5. A confirmed walkover on an existing match whose two slots are both absent
  alerts (no eligible player) and returns the state it was given.
\<close>

theorem walkover_no_player_rejected:
  assumes "editorData st = Some data"
    "find (\<lambda>m. match_id m = mid) (matches data) = Some m"
    "redPlayerId m = None" "whitePlayerId m = None"
  shows "handleWalkover st mid True now = (Alerted NoEligiblePlayerError, st)"
  using assms by (simp add: handleWalkover_def truthy_def)

theorem walkover_no_player_rejected_witness:
  "handleWalkover (exampleState [initialMatch 1, initialMatch 2]) 2 True 9 =
     (Alerted NoEligiblePlayerError, exampleState [initialMatch 1, initialMatch 2])"
  using walkover_no_player_rejected
    [of "exampleState [initialMatch 1, initialMatch 2]"
        "exampleData [initialMatch 1, initialMatch 2]" 2 "initialMatch 2" 9]
  by (simp add: exampleState_def exampleData_def initialMatch_def)

lemma walkover_run:
  assumes "editorData st = Some data"
    and "find (\<lambda>m. match_id m = mid) (matches data) = Some m"
    and "(if truthy (redPlayerId m) then redPlayerId m else whitePlayerId m) = Some winner"
    and "winner \<noteq> []"
  shows "handleWalkover st mid True now =
    (Persisted, persistTournament st
       (data\<lparr>matches :=
          (case winnerToMatchId m of
             None \<Rightarrow> setResult (matches data) mid
                      \<lparr>winnerId = winner, redScore = 0, whiteScore = 0, details = ''(Walkover)''\<rparr>
           | Some t \<Rightarrow>
               if t = 0 then setResult (matches data) mid
                      \<lparr>winnerId = winner, redScore = 0, whiteScore = 0, details = ''(Walkover)''\<rparr>
               else placePlayerInMatch
                      (setResult (matches data) mid
                         \<lparr>winnerId = winner, redScore = 0, whiteScore = 0,
                            details = ''(Walkover)''\<rparr>)
                      t winner (winnerToSlot m)
                      (filterBoolean [redPlayerId m, whitePlayerId m]))\<rparr>) now)"
  using assms(3,4)
  by (simp add: handleWalkover_def Let_def assms(1,2) del: if_split cong: if_cong)

lemma routed_frame:
  assumes "i < length ms" "match_id (ms ! i) = l" "l \<noteq> mid" "wt \<noteq> Some l"
  shows "(case wt of
             None \<Rightarrow> setResult ms mid r
           | Some t \<Rightarrow> if t = 0 then setResult ms mid r
                       else placePlayerInMatch (setResult ms mid r) t p s sp) ! i = ms ! i"
proof -
  have a: "setResult ms mid r ! i = ms ! i"
    using assms(1,2,3) by (simp add: setResult_nth)
  show ?thesis
  proof (cases wt)
    case None
    then show ?thesis by (simp add: a)
  next
    case (Some t)
    have "match_id (setResult ms mid r ! i) \<noteq> t"
      using a assms(2,4) Some by simp
    then have "placePlayerInMatch (setResult ms mid r) t p s sp ! i = ms ! i"
      using assms(1) a by (simp add: place_nth_other setResult_length)
    then show ?thesis using Some a by simp
  qed
qed

lemma routed_length:
  "length (case wt of
             None \<Rightarrow> setResult ms mid r
           | Some t \<Rightarrow> if t = 0 then setResult ms mid r
                       else placePlayerInMatch (setResult ms mid r) t p s sp) = length ms"
  by (cases wt) (simp_all add: setResult_length place_length)

text \<open>
  Claim C4, amended. A walkover on an unfinished match with exactly one occupied slot and
  a loser edge is carried out, and it leaves the loser-edge target match as it was,
  provided that target is neither the walked-over match itself nor the target of the
  winner edge. (The walkover writes the result into the walked-over match and places the
  winner into the winner-edge target, and nothing else.)
\<close>

theorem walkover_skips_loser_routing:
  assumes ed: "editorData st = Some data"
    and fnd: "find (\<lambda>m. match_id m = mid) (matches data) = Some m"
    and unfinished: "result m = None"
    and one: "truthy (redPlayerId m) \<noteq> truthy (whitePlayerId m)"
    and loser: "loserToMatchId m = Some l"
    and ne_self: "l \<noteq> mid"
    and ne_winner: "winnerToMatchId m \<noteq> Some l"
  shows "fst (handleWalkover st mid True now) = Persisted \<and>
    (\<exists>data'. editorData (snd (handleWalkover st mid True now)) = Some data' \<and>
       length (matches data') = length (matches data) \<and>
       (\<forall>i < length (matches data).
          match_id (matches data ! i) = l \<longrightarrow> matches data' ! i = matches data ! i))"
proof -
  have "\<exists>winner. (if truthy (redPlayerId m) then redPlayerId m else whitePlayerId m)
            = Some winner \<and> winner \<noteq> []"
  proof (cases "truthy (redPlayerId m)")
    case True
    then show ?thesis by (cases "redPlayerId m") (simp_all add: truthy_def)
  next
    case False
    with one have "truthy (whitePlayerId m)" by simp
    with False show ?thesis by (cases "whitePlayerId m") (simp_all add: truthy_def)
  qed
  then obtain winner
    where w: "(if truthy (redPlayerId m) then redPlayerId m else whitePlayerId m) = Some winner"
      "winner \<noteq> []"
    by blast
  show ?thesis
    unfolding walkover_run [OF ed fnd w]
    by (simp add: persist_editorData routed_length routed_frame ne_self ne_winner)
qed

theorem walkover_skips_loser_routing_witness:
  "fst (handleWalkover (exampleState [byeMatch, initialMatch 2, initialMatch 3]) 1 True 9)
     = Persisted
   \<and> map_option (\<lambda>d. matches d ! 2)
       (editorData (snd (handleWalkover
          (exampleState [byeMatch, initialMatch 2, initialMatch 3]) 1 True 9)))
     = Some (initialMatch 3)"
  using walkover_skips_loser_routing
    [of "exampleState [byeMatch, initialMatch 2, initialMatch 3]"
        "exampleData [byeMatch, initialMatch 2, initialMatch 3]" 1 byeMatch 3 9]
  by (auto simp: exampleState_def exampleData_def byeMatch_def initialMatch_def truthy_def)

text \<open>
  Claim C4 as stated fails where the winner edge and the loser edge have the same target:
  the walkover places the winner there, so the loser-edge target match changes.
\<close>

theorem walkover_changes_shared_target:
  "fst (handleWalkover (exampleState [rematchBye, initialMatch 2]) 1 True 9) = Persisted
   \<and> loserToMatchId rematchBye = Some 2
   \<and> map_option (\<lambda>d. find (\<lambda>m. match_id m = 2) (matches d))
        (editorData (exampleState [rematchBye, initialMatch 2]))
      = Some (Some (initialMatch 2))
   \<and> map_option (\<lambda>d. find (\<lambda>m. match_id m = 2) (matches d))
        (editorData (snd (handleWalkover (exampleState [rematchBye, initialMatch 2]) 1 True 9)))
      = Some (Some ((initialMatch 2)\<lparr>redPlayerId := Some ''p1''\<rparr>))
   \<and> (initialMatch 2)\<lparr>redPlayerId := Some ''p1''\<rparr> \<noteq> initialMatch 2"
  by (simp add: handleWalkover_def exampleState_def exampleData_def rematchBye_def
      initialMatch_def truthy_def filterBoolean_def setResult_def placePlayerInMatch_def
      persistTournament_def Let_def)

lemma place_as_map:
  "placePlayerInMatch ms t p s sp =
     map (\<lambda>y. if match_id y = t then advanceInto s p sp y else y) ms"
proof (cases s)
  case None
  show ?thesis
    unfolding placePlayerInMatch_def None
    by (rule map_cong [OF refl])
       (auto simp: advanceInto_def autoPolicy_def applyChoice_def truthy_def includes_str_def
          holdsSourceParticipant_def slotEmpty_def split: option.splits)
next
  case (Some c)
  then show ?thesis by (cases c) (simp_all add: placePlayerInMatch_def advanceInto_def)
qed

lemma findIndex_less: "findIndex P xs = Some i \<Longrightarrow> i < length xs"
  by (induction xs arbitrary: i) (auto split: if_splits)

lemma persist_tournaments_mem:
  "data\<lparr>lastUpdated := now\<rparr> \<in> set (tournaments (persistTournament st data now))"
proof (cases "findIndex (\<lambda>t. tournament_id t = tournament_id data) (tournaments st)")
  case None
  then show ?thesis by (simp add: persistTournament_def Let_def)
next
  case (Some i)
  then have "i < length (tournaments st)" by (rule findIndex_less)
  then have "data\<lparr>lastUpdated := now\<rparr> \<in> set ((tournaments st)[i := data\<lparr>lastUpdated := now\<rparr>])"
    by (rule set_update_memI)
  with Some show ?thesis by (simp add: persistTournament_def Let_def)
qed

lemma routed_as_map:
  "(case wt of
      None \<Rightarrow> setResult ms mid res
    | Some t \<Rightarrow> if t = 0 then setResult ms mid res
                else placePlayerInMatch (setResult ms mid res) t p s sp)
   = map (\<lambda>x. let y = (if match_id x = mid then x\<lparr>result := Some res\<rparr> else x)
              in if wt = Some (match_id x) \<and> match_id x \<noteq> 0
                 then advanceInto s p sp y else y) ms"
proof (cases wt)
  case None
  then show ?thesis by (simp add: setResult_def)
next
  case (Some t)
  show ?thesis
  proof (cases "t = 0")
    case True
    with Some show ?thesis by (simp add: setResult_def cong: conj_cong)
  next
    case False
    have "placePlayerInMatch (setResult ms mid res) t p s sp
        = map (\<lambda>x. let y = (if match_id x = mid then x\<lparr>result := Some res\<rparr> else x)
              in if match_id x = t then advanceInto s p sp y else y) ms"
      unfolding place_as_map setResult_def map_map
      by (rule map_cong [OF refl]) (simp add: Let_def)
    also have "\<dots> = map (\<lambda>x. let y = (if match_id x = mid then x\<lparr>result := Some res\<rparr> else x)
              in if Some t = Some (match_id x) \<and> match_id x \<noteq> 0
                 then advanceInto s p sp y else y) ms"
      using False by (intro map_cong [OF refl]) (auto simp: Let_def)
    finally show ?thesis using Some False by simp
  qed
qed

text \<open>
  Claim C10. A walkover on an unfinished match with both slots occupied does not fail.
  It persists, and in the tournament that the resulting state holds (and stores) the
  walked-over match carries the result with the red player as winner, both scores 0 and
  the walkover details, and the red player has been advanced along the winner edge into
  its target match (when there is a winner edge), with both players as source
  participants; every other match is as it was.
\<close>

theorem walkover_both_occupied_red_wins:
  assumes ed: "editorData st = Some data"
    and fnd: "find (\<lambda>m. match_id m = mid) (matches data) = Some m"
    and unfinished: "result m = None"
    and red: "redPlayerId m = Some r" "r \<noteq> []"
    and white: "whitePlayerId m = Some w" "w \<noteq> []"
  shows "fst (handleWalkover st mid True now) = Persisted
    \<and> editorData (snd (handleWalkover st mid True now)) =
        Some (data\<lparr>matches :=
                map (\<lambda>x. let y = (if match_id x = mid
                                  then x\<lparr>result := Some \<lparr>winnerId = r, redScore = 0,
                                                         whiteScore = 0,
                                                         details = ''(Walkover)''\<rparr>\<rparr>
                                  else x)
                         in if winnerToMatchId m = Some (match_id x) \<and> match_id x \<noteq> 0
                            then advanceInto (winnerToSlot m) r [r, w] y else y)
                  (matches data),
              lastUpdated := now\<rparr>)
    \<and> (\<exists>stored \<in> set (tournaments (snd (handleWalkover st mid True now))).
          editorData (snd (handleWalkover st mid True now)) = Some stored)"
proof -
  have a: "(if truthy (redPlayerId m) then redPlayerId m else whitePlayerId m) = Some r"
    using red by (simp add: truthy_def)
  have b: "filterBoolean [redPlayerId m, whitePlayerId m] = [r, w]"
    using red white by (simp add: filterBoolean_def)
  note run = walkover_run [OF ed fnd a red(2), of now, unfolded b routed_as_map]
  show ?thesis
    unfolding run fst_conv snd_conv persist_editorData
    using persist_tournaments_mem by simp
qed

theorem walkover_both_occupied_red_wins_witness:
  "fst (handleWalkover (exampleState [readyMatch, initialMatch 2]) 1 True 9) = Persisted
   \<and> editorData (snd (handleWalkover (exampleState [readyMatch, initialMatch 2]) 1 True 9)) =
       Some ((exampleData
                [readyMatch\<lparr>result := Some \<lparr>winnerId = ''p1'', redScore = 0, whiteScore = 0,
                                            details = ''(Walkover)''\<rparr>\<rparr>,
                 (initialMatch 2)\<lparr>redPlayerId := Some ''p1''\<rparr>])\<lparr>lastUpdated := 9\<rparr>)"
  using walkover_both_occupied_red_wins
    [of "exampleState [readyMatch, initialMatch 2]"
        "exampleData [readyMatch, initialMatch 2]" 1 readyMatch "''p1''" "''p2''" 9]
  by (simp add: exampleState_def exampleData_def readyMatch_def initialMatch_def
      advanceInto_def autoPolicy_def applyChoice_def holdsSourceParticipant_def
      slotEmpty_def Let_def)

section \<open>Ranking derivation: theorems\<close>

lemma rankInv_push:
  assumes "rankInv pls st" "p \<notin> set (processedPlayers st)"
    "find (\<lambda>pl. player_id pl = p) pls = Some pl"
  shows "rankInv pls (st\<lparr>rankings := rankings st
                        @ [\<lparr>rank_title = ttl, rank_name = name pl, rankOrder = order\<rparr>],
                    processedPlayers := processedPlayers st @ [p]\<rparr>)"
  using assms by (simp add: rankInv_def)

lemma addRanking_inv:
  assumes "rankInv pls st"
  shows "rankInv pls (addRanking pls pid ttl order st)"
proof (cases pid)
  case None
  then show ?thesis using assms by (simp add: addRanking_def)
next
  case (Some p)
  show ?thesis
  proof (cases "p = [] \<or> p \<in> set (processedPlayers st)")
    case True
    then show ?thesis using assms Some by (auto simp add: addRanking_def)
  next
    case False
    show ?thesis
    proof (cases "find (\<lambda>pl. player_id pl = p) pls")
      case None
      then show ?thesis using assms Some False by (simp add: addRanking_def)
    next
      case (Some pl)
      then show ?thesis
        using rankInv_push [OF assms _ Some, of ttl order] False \<open>pid = Some p\<close>
        by (simp add: addRanking_def)
    qed
  qed
qed

lemma rankRoot_inv: "rankInv pls st \<Longrightarrow> rankInv pls (rankRoot pls t1 o1 t2 o2 root st)"
  by (cases "result root") (simp_all add: rankRoot_def addRanking_inv)

lemma rankLoser_inv: "rankInv pls st \<Longrightarrow> rankInv pls (rankLoser pls ttl order m st)"
  by (cases "result m") (simp_all add: rankLoser_def addRanking_inv)

lemma fold_rankRoot_inv:
  "rankInv pls s \<Longrightarrow> rankInv pls (fold (rankRoot pls t1 o1 t2 o2) xs s)"
  by (induction xs arbitrary: s) (simp_all add: rankRoot_inv)

lemma fold_rankLoser_inv:
  "rankInv pls s \<Longrightarrow> rankInv pls (fold (rankLoser pls ttl order) xs s)"
  by (induction xs arbitrary: s) (simp_all add: rankLoser_inv)

lemma rankingState_inv: "rankInv (players data) (rankingState data limit)"
proof -
  have 0: "rankInv (players data) \<lparr>rankings = [], processedPlayers = []\<rparr>"
    by (simp add: rankInv_def)
  show ?thesis
    unfolding rankingState_def Let_def
    by (simp add: fold_rankRoot_inv fold_rankLoser_inv 0)
qed

lemma insort_key_map:
  "map f (insort_key (\<lambda>x. k (f x)) a xs) = insort_key k (f a) (map f xs)"
  by (induction xs) simp_all

lemma sort_key_map: "map f (sort_key (\<lambda>x. k (f x)) xs) = sort_key k (map f xs)"
  by (induction xs) (simp_all add: insort_key_map)

lemma slice0_map: "map f (slice0 xs n) = slice0 (map f xs) n"
  by (simp add: slice0_def take_map)

lemma slice0_subset: "set (slice0 xs n) \<subseteq> set xs"
  by (simp add: slice0_def set_take_subset)

lemma slice0_distinct: "distinct xs \<Longrightarrow> distinct (slice0 xs n)"
  by (simp add: slice0_def)

lemma distinct_map_sort_key: "distinct (map f (sort_key k xs)) = distinct (map f xs)"
  by (simp add: distinct_map)

text \<open>
  Claim C6. The entries \<open>getRankings\<close> returns are the entries of \<open>rankedWithIds\<close>, each
  pushed for the player id it is paired with and carrying that player's name, and no
  player id occurs twice among them, for every tournament and every limit. The first
  assignment wins: \<open>addRanking\<close> for a player who is already processed changes nothing.
\<close>

theorem rankings_no_player_twice:
  "map snd (rankedWithIds data limit) = getRankings (Some data) limit
   \<and> distinct (map fst (rankedWithIds data limit))
   \<and> list_all (\<lambda>e. map_option name (find (\<lambda>pl. player_id pl = fst e) (players data))
                      = Some (rank_name (snd e)))
        (rankedWithIds data limit)
   \<and> (p \<in> set (processedPlayers st) \<longrightarrow> addRanking pls (Some p) ttl order st = st)"
proof (intro conjI)
  let ?st = "rankingState data limit"
  have inv: "rankInv (players data) ?st" by (rule rankingState_inv)
  then have len: "length (rankings ?st) = length (processedPlayers ?st)"
    and dist: "distinct (processedPlayers ?st)"
    and names: "list_all (\<lambda>e. map_option name (find (\<lambda>pl. player_id pl = fst e) (players data))
                      = Some (rank_name (snd e))) (zip (processedPlayers ?st) (rankings ?st))"
    by (simp_all add: rankInv_def)
  show "map snd (rankedWithIds data limit) = getRankings (Some data) limit"
    by (simp add: rankedWithIds_def getRankings_def slice0_map sort_key_map len)
  have "distinct (map fst (zip (processedPlayers ?st) (rankings ?st)))"
    using dist len by simp
  then have "distinct (map fst (sort_key (\<lambda>e. rankOrder (snd e))
               (zip (processedPlayers ?st) (rankings ?st))))"
    by (simp only: distinct_map_sort_key)
  then show "distinct (map fst (rankedWithIds data limit))"
    unfolding rankedWithIds_def slice0_map by (rule slice0_distinct)
  show "list_all (\<lambda>e. map_option name (find (\<lambda>pl. player_id pl = fst e) (players data))
                      = Some (rank_name (snd e))) (rankedWithIds data limit)"
    using names slice0_subset [of "sort_key (\<lambda>e. rankOrder (snd e))
               (zip (processedPlayers ?st) (rankings ?st))" limit]
    unfolding rankedWithIds_def list_all_iff by auto
  show "p \<in> set (processedPlayers st) \<longrightarrow> addRanking pls (Some p) ttl order st = st"
    by (simp add: addRanking_def)
qed

theorem rankings_no_player_twice_witness:
  "getRankings (Some (exampleData rematchFinal)) 4 =
     [\<lparr>rank_title = ''(Champion)'', rank_name = ''Aoki'', rankOrder = 1\<rparr>,
      \<lparr>rank_title = ''(2nd Place)'', rank_name = ''Baba'', rankOrder = 2\<rparr>]
   \<and> map fst (rankedWithIds (exampleData rematchFinal) 4) = [''p1'', ''p2'']
   \<and> addRanking examplePlayers (Some ''p2'') ''(3rd Place - Joint)'' 3
        (rankingState (exampleData rematchFinal) 4)
       = rankingState (exampleData rematchFinal) 4"
proof -
  have st: "rankingState (exampleData rematchFinal) 4 =
     \<lparr>rankings = [\<lparr>rank_title = ''(Champion)'', rank_name = ''Aoki'', rankOrder = 1\<rparr>,
                   \<lparr>rank_title = ''(2nd Place)'', rank_name = ''Baba'', rankOrder = 2\<rparr>],
      processedPlayers = [''p1'', ''p2'']\<rparr>"
    by (simp add: rankingState_def exampleData_def rematchFinal_def examplePlayers_def
        initialMatch_def truthy_num_def isFedByLoser_def sortDesc_def rankRoot_def
        rankLoser_def addRanking_def loserOf_def getLosersOfFeeders_def Let_def)
  show ?thesis
    using rankings_no_player_twice [of "exampleData rematchFinal" 4 "''p2''"
        "rankingState (exampleData rematchFinal) 4" examplePlayers "''(3rd Place - Joint)''" 3]
    by (simp add: st rankedWithIds_def getRankings_def slice0_def)
qed

section \<open>The scenario of the specification\<close>

lemma scenario_semis_matches:
  assumes "a \<noteq> []" "b \<noteq> []" "c \<noteq> []" "d \<noteq> []"
  shows "scenarioSemisPlayed a b c d na nb nc nd =
    (scenarioStart a b c d na nb nc nd)
      \<lparr>tournaments :=
         [\<lparr>tournament_id = ''t1'', lastUpdated = 2, title = ''Cup'',
           players = [\<lparr>player_id = a, name = na\<rparr>, \<lparr>player_id = b, name = nb\<rparr>,
                      \<lparr>player_id = c, name = nc\<rparr>, \<lparr>player_id = d, name = nd\<rparr>],
           matches =
             [(initialMatch 1)\<lparr>redPlayerId := Some a, whitePlayerId := Some b,
                winnerToMatchId := Some 3, winnerToSlot := Some Red,
                result := Some \<lparr>winnerId = a, redScore = 3, whiteScore = 1, details = []\<rparr>\<rparr>,
              (initialMatch 2)\<lparr>redPlayerId := Some c, whitePlayerId := Some d,
                winnerToMatchId := Some 3, winnerToSlot := Some White,
                result := Some \<lparr>winnerId = d, redScore = 0, whiteScore = 2, details = []\<rparr>\<rparr>,
              (initialMatch 3)\<lparr>redPlayerId := Some a, whitePlayerId := Some d\<rparr>],
           totalMatches = 3, status = ACTIVE\<rparr>],
       editorData := Some
         \<lparr>tournament_id = ''t1'', lastUpdated = 2, title = ''Cup'',
           players = [\<lparr>player_id = a, name = na\<rparr>, \<lparr>player_id = b, name = nb\<rparr>,
                      \<lparr>player_id = c, name = nc\<rparr>, \<lparr>player_id = d, name = nd\<rparr>],
           matches =
             [(initialMatch 1)\<lparr>redPlayerId := Some a, whitePlayerId := Some b,
                winnerToMatchId := Some 3, winnerToSlot := Some Red,
                result := Some \<lparr>winnerId = a, redScore = 3, whiteScore = 1, details = []\<rparr>\<rparr>,
              (initialMatch 2)\<lparr>redPlayerId := Some c, whitePlayerId := Some d,
                winnerToMatchId := Some 3, winnerToSlot := Some White,
                result := Some \<lparr>winnerId = d, redScore = 0, whiteScore = 2, details = []\<rparr>\<rparr>,
              (initialMatch 3)\<lparr>redPlayerId := Some a, whitePlayerId := Some d\<rparr>],
           totalMatches = 3, status = ACTIVE\<rparr>,
       scoreForm := \<lparr>form_red = 0, form_white = 2, form_details = []\<rparr>\<rparr>"
  using assms
  by (simp add: scenarioSemisPlayed_def scenarioStart_def scenarioMatches_def initialMatch_def
      enterScore_def submitScore_def setResult_def placePlayerInMatch_def persistTournament_def
      Let_def)

lemma scenario_final_matches:
  assumes "a \<noteq> []" "b \<noteq> []" "c \<noteq> []" "d \<noteq> []"
  shows "editorData (scenarioFinalPlayed a b c d na nb nc nd) = Some
         \<lparr>tournament_id = ''t1'', lastUpdated = 3, title = ''Cup'',
           players = [\<lparr>player_id = a, name = na\<rparr>, \<lparr>player_id = b, name = nb\<rparr>,
                      \<lparr>player_id = c, name = nc\<rparr>, \<lparr>player_id = d, name = nd\<rparr>],
           matches =
             [(initialMatch 1)\<lparr>redPlayerId := Some a, whitePlayerId := Some b,
                winnerToMatchId := Some 3, winnerToSlot := Some Red,
                result := Some \<lparr>winnerId = a, redScore = 3, whiteScore = 1, details = []\<rparr>\<rparr>,
              (initialMatch 2)\<lparr>redPlayerId := Some c, whitePlayerId := Some d,
                winnerToMatchId := Some 3, winnerToSlot := Some White,
                result := Some \<lparr>winnerId = d, redScore = 0, whiteScore = 2, details = []\<rparr>\<rparr>,
              (initialMatch 3)\<lparr>redPlayerId := Some a, whitePlayerId := Some d,
                result := Some \<lparr>winnerId = a, redScore = 2, whiteScore = 1, details = []\<rparr>\<rparr>],
           totalMatches = 3, status = ACTIVE\<rparr>"
  unfolding scenarioFinalPlayed_def scenario_semis_matches [OF assms]
  using assms
  by (simp add: scenarioStart_def initialMatch_def
      enterScore_def submitScore_def setResult_def placePlayerInMatch_def persistTournament_def
      Let_def)

text \<open>
  Claim C1. In the three-match bracket (match 1 to the Red slot of match 3, match 2 to its
  White slot, match 3 a root), with four different players, scoring match 1 by 3-1 and
  match 2 by 0-2 puts match 1's red player into the red slot of match 3 and match 2's white
  player into its white slot; after scoring match 3 by 2-1 the rankings with limit 4 are
  the champion (red of match 3), the second place (white of match 3) and the two joint
  third places (white of match 1, red of match 2), in that order.
\<close>

theorem scenario_three_matches:
  assumes "distinct [a, b, c, d]" and "[] \<notin> set [a, b, c, d]"
  shows "map_option (\<lambda>dt. map (\<lambda>m. (match_id m, redPlayerId m, whitePlayerId m)) (matches dt))
           (editorData (scenarioSemisPlayed a b c d na nb nc nd))
         = Some [(1, Some a, Some b), (2, Some c, Some d), (3, Some a, Some d)]
       \<and> getRankings (editorData (scenarioFinalPlayed a b c d na nb nc nd)) 4
         = [\<lparr>rank_title = ''(Champion)'', rank_name = na, rankOrder = 1\<rparr>,
            \<lparr>rank_title = ''(2nd Place)'', rank_name = nd, rankOrder = 2\<rparr>,
            \<lparr>rank_title = ''(3rd Place - Joint)'', rank_name = nb, rankOrder = 3\<rparr>,
            \<lparr>rank_title = ''(3rd Place - Joint)'', rank_name = nc, rankOrder = 3\<rparr>]"
proof -
  have ne: "a \<noteq> []" "b \<noteq> []" "c \<noteq> []" "d \<noteq> []"
    using assms(2) by auto
  have semis: "map_option (\<lambda>dt. map (\<lambda>m. (match_id m, redPlayerId m, whitePlayerId m)) (matches dt))
           (editorData (scenarioSemisPlayed a b c d na nb nc nd))
         = Some [(1, Some a, Some b), (2, Some c, Some d), (3, Some a, Some d)]"
    unfolding scenario_semis_matches [OF ne] by (simp add: initialMatch_def)
  have dist: "a \<noteq> b" "a \<noteq> c" "a \<noteq> d" "b \<noteq> c" "b \<noteq> d" "c \<noteq> d"
    "b \<noteq> a" "c \<noteq> a" "d \<noteq> a" "c \<noteq> b" "d \<noteq> b" "d \<noteq> c"
    using assms(1) by auto
  have ranks: "getRankings (editorData (scenarioFinalPlayed a b c d na nb nc nd)) 4
         = [\<lparr>rank_title = ''(Champion)'', rank_name = na, rankOrder = 1\<rparr>,
            \<lparr>rank_title = ''(2nd Place)'', rank_name = nd, rankOrder = 2\<rparr>,
            \<lparr>rank_title = ''(3rd Place - Joint)'', rank_name = nb, rankOrder = 3\<rparr>,
            \<lparr>rank_title = ''(3rd Place - Joint)'', rank_name = nc, rankOrder = 3\<rparr>]"
    unfolding scenario_final_matches [OF ne]
    using ne dist
    by (simp add: getRankings_def rankingState_def initialMatch_def truthy_num_def
        isFedByLoser_def sortDesc_def rankRoot_def rankLoser_def addRanking_def loserOf_def
        getLosersOfFeeders_def slice0_def Let_def)
  from semis ranks show ?thesis by (rule conjI)
qed

theorem scenario_three_matches_witness:
  "getRankings (editorData (scenarioFinalPlayed ''p1'' ''p2'' ''p3'' ''p4''
                   ''Aoki'' ''Baba'' ''Chiba'' ''Doi'')) 4
     = [\<lparr>rank_title = ''(Champion)'', rank_name = ''Aoki'', rankOrder = 1\<rparr>,
        \<lparr>rank_title = ''(2nd Place)'', rank_name = ''Doi'', rankOrder = 2\<rparr>,
        \<lparr>rank_title = ''(3rd Place - Joint)'', rank_name = ''Baba'', rankOrder = 3\<rparr>,
        \<lparr>rank_title = ''(3rd Place - Joint)'', rank_name = ''Chiba'', rankOrder = 3\<rparr>]"
  using scenario_three_matches [of "''p1''" "''p2''" "''p3''" "''p4''"
      "''Aoki''" "''Baba''" "''Chiba''" "''Doi''"]
  by simp


section \<open>Round layout: theorems\<close>

lemma depthLe_refl: "depthLe mp mp"
  by (simp add: depthLe_def)

lemma depthLe_trans: "depthLe m0 m1 \<Longrightarrow> depthLe m1 m2 \<Longrightarrow> depthLe m0 m2"
  unfolding depthLe_def by (meson order_trans)

lemma freshOk_refl: "freshOk ms mp mp"
  unfolding freshOk_def by blast

lemma atLeastDepth_mono: "atLeastDepth m k c \<Longrightarrow> depthLe m m' \<Longrightarrow> atLeastDepth m' k c"
  unfolding atLeastDepth_def depthLe_def by (meson order_trans)

lemma freshOk_trans:
  assumes 01: "freshOk ms m0 m1" and 12: "freshOk ms m1 m2" and le: "depthLe m1 m2"
  shows "freshOk ms m0 m2"
  unfolding freshOk_def
proof (intro allI impI ballI)
  fix b db a
  assume h: "map_of m2 b = Some db \<and> map_of m0 b \<noteq> Some db \<and> db < maxDepth"
    and a: "a \<in> set (feeders ms b)"
  show "\<exists>da. map_of m2 (match_id a) = Some da \<and> db < da"
  proof (cases "map_of m1 b = Some db")
    case True
    with 01 h a obtain da where "map_of m1 (match_id a) = Some da" "db < da"
      unfolding freshOk_def by blast
    with le obtain da' where "map_of m2 (match_id a) = Some da'" "da \<le> da'"
      unfolding depthLe_def by blast
    with \<open>db < da\<close> show ?thesis by auto
  next
    case False
    with 12 h a show ?thesis unfolding freshOk_def by blast
  qed
qed

lemma fold_ext:
  assumes step: "\<And>f mp'. f \<in> set fs \<Longrightarrow>
      depthLe mp' (h f mp') \<and> freshOk ms mp' (h f mp')
      \<and> (G \<longrightarrow> atLeastDepth (h f mp') (match_id f) c)"
  shows "depthLe m0 (fold h fs m0) \<and> freshOk ms m0 (fold h fs m0)
      \<and> (G \<longrightarrow> (\<forall>f \<in> set fs. atLeastDepth (fold h fs m0) (match_id f) c))"
  using step
proof (induction fs arbitrary: m0)
  case Nil
  show ?case by (simp add: depthLe_refl freshOk_refl)
next
  case (Cons f fs)
  let ?m1 = "h f m0"
  let ?mF = "fold h fs ?m1"
  have f: "depthLe m0 ?m1" "freshOk ms m0 ?m1" "G \<longrightarrow> atLeastDepth ?m1 (match_id f) c"
    using Cons.prems [of f m0] by simp_all
  have rest: "depthLe ?m1 ?mF \<and> freshOk ms ?m1 ?mF
      \<and> (G \<longrightarrow> (\<forall>f \<in> set fs. atLeastDepth ?mF (match_id f) c))"
    by (rule Cons.IH) (simp add: Cons.prems)
  have 1: "depthLe m0 ?mF" using f(1) rest by (blast intro: depthLe_trans)
  have 2: "freshOk ms m0 ?mF" using f(2) rest by (blast intro: freshOk_trans)
  have 3: "G \<longrightarrow> atLeastDepth ?mF (match_id f) c"
    using f(3) rest by (blast intro: atLeastDepth_mono)
  show ?case using 1 2 3 rest by simp
qed

lemma step_depthLe:
  "depthLe mp (if d > existingDepth mp x then AList.update x d mp else mp)"
  by (auto simp: depthLe_def existingDepth_def update_conv' split: option.splits if_splits)

lemma step_atLeast:
  "0 \<le> d \<Longrightarrow> atLeastDepth (if d > existingDepth mp x then AList.update x d mp else mp) x d"
  by (auto simp: atLeastDepth_def existingDepth_def update_conv' split: option.splits if_splits)

lemma step_changed:
  assumes "map_of (if d > existingDepth mp x then AList.update x d mp else mp) b = Some db"
    and "map_of mp b \<noteq> Some db"
  shows "b = x \<and> db = d"
  using assms by (auto simp: update_conv' split: if_splits)

lemma calculateDepth_ext:
  "0 \<le> d \<Longrightarrow>
   depthLe mp (calculateDepth ms mp x d) \<and> freshOk ms mp (calculateDepth ms mp x d)
   \<and> (d \<le> maxDepth \<longrightarrow> atLeastDepth (calculateDepth ms mp x d) x d)"
proof (induction ms mp x d rule: calculateDepth.induct)
  case (1 ms mp x d)
  show ?case
  proof (cases "d > maxDepth")
    case True
    then have "calculateDepth ms mp x d = mp"
      by (subst calculateDepth.simps) simp
    with True show ?thesis by (simp add: depthLe_refl freshOk_refl)
  next
    case False
    let ?mp1 = "if d > existingDepth mp x then AList.update x d mp else mp"
    let ?h = "\<lambda>f mp'. calculateDepth ms mp' (match_id f) (d + 1)"
    let ?res = "fold ?h (feeders ms x) ?mp1"
    have eq: "calculateDepth ms mp x d = ?res"
      by (subst calculateDepth.simps) (simp add: False)
    have d1: "0 \<le> d + 1" using "1.prems" by simp
    have F: "depthLe ?mp1 ?res \<and> freshOk ms ?mp1 ?res
      \<and> (d + 1 \<le> maxDepth \<longrightarrow>
           (\<forall>f \<in> set (feeders ms x). atLeastDepth ?res (match_id f) (d + 1)))"
      by (rule fold_ext) (use "1.IH" [OF False _ d1] in blast)
    have le: "depthLe mp ?res"
      using step_depthLe [where mp=mp and d=d and x=x] F by (blast intro: depthLe_trans)
    have fresh: "freshOk ms mp ?res"
      unfolding freshOk_def
    proof (intro allI impI ballI)
      fix b db a
      assume h: "map_of ?res b = Some db \<and> map_of mp b \<noteq> Some db \<and> db < maxDepth"
        and a: "a \<in> set (feeders ms b)"
      show "\<exists>da. map_of ?res (match_id a) = Some da \<and> db < da"
      proof (cases "map_of ?mp1 b = Some db")
        case True
        with h have bx: "b = x \<and> db = d" by (blast dest: step_changed)
        with h have "d + 1 \<le> maxDepth" by simp
        with F a bx have "atLeastDepth ?res (match_id a) (d + 1)" by blast
        then show ?thesis using bx by (auto simp: atLeastDepth_def)
      next
        case False
        with F h a show ?thesis unfolding freshOk_def by blast
      qed
    qed
    have third: "d \<le> maxDepth \<longrightarrow> atLeastDepth ?res x d"
      using step_atLeast [where mp=mp and d=d and x=x] "1.prems" F
      by (blast intro: atLeastDepth_mono)
    show ?thesis unfolding eq using le fresh third by blast
  qed
qed

lemma fold_nonneg:
  assumes "\<And>f m. f \<in> set fs \<Longrightarrow> nonneg m \<Longrightarrow> nonneg (h f m)" and "nonneg m0"
  shows "nonneg (fold h fs m0)"
  using assms by (induction fs arbitrary: m0) simp_all

lemma nonneg_update: "nonneg mp \<Longrightarrow> 0 \<le> d \<Longrightarrow> nonneg (AList.update x d mp)"
  by (simp add: nonneg_def update_conv')

lemma calculateDepth_nonneg:
  "0 \<le> d \<Longrightarrow> nonneg mp \<Longrightarrow> nonneg (calculateDepth ms mp x d)"
proof (induction ms mp x d rule: calculateDepth.induct)
  case (1 ms mp x d)
  show ?case
  proof (cases "d > maxDepth")
    case True
    then show ?thesis using "1.prems" by (subst calculateDepth.simps) simp
  next
    case False
    let ?mp1 = "if d > existingDepth mp x then AList.update x d mp else mp"
    have n1: "nonneg ?mp1" using "1.prems" by (simp add: nonneg_update)
    have "nonneg (fold (\<lambda>f mp'. calculateDepth ms mp' (match_id f) (d + 1)) (feeders ms x) ?mp1)"
      using "1.prems"(1) by (intro fold_nonneg "1.IH" [OF False] n1) simp_all
    then show ?thesis by (subst calculateDepth.simps) (simp add: False)
  qed
qed

lemma edgesOk_ext:
  assumes ok: "edgesOk ms R mp" and le: "depthLe mp mp'" and fresh: "freshOk ms mp mp'"
  shows "edgesOk ms R mp'"
  unfolding edgesOk_def
proof (intro ballI allI impI)
  fix b db a
  assume b: "b \<in> R" and h: "map_of mp' b = Some db \<and> db < maxDepth"
    and a: "a \<in> set (feeders ms b)"
  show "\<exists>da. map_of mp' (match_id a) = Some da \<and> db < da"
  proof (cases "map_of mp b = Some db")
    case True
    with ok b h a obtain da where "map_of mp (match_id a) = Some da" "db < da"
      unfolding edgesOk_def by blast
    with le obtain da' where "map_of mp' (match_id a) = Some da'" "da \<le> da'"
      unfolding depthLe_def by blast
    with \<open>db < da\<close> show ?thesis by auto
  next
    case False
    with fresh h a show ?thesis unfolding freshOk_def by blast
  qed
qed

lemma edgesOk_new_key:
  assumes ok: "edgesOk ms R mp" and absent: "map_of mp k = None"
    and R: "\<forall>b \<in> R. map_of mp b \<noteq> None"
  shows "edgesOk ms R (AList.update k v mp)"
  unfolding edgesOk_def
proof (intro ballI allI impI)
  fix b db a
  assume b: "b \<in> R" and h: "map_of (AList.update k v mp) b = Some db \<and> db < maxDepth"
    and a: "a \<in> set (feeders ms b)"
  from b R absent have "b \<noteq> k" by auto
  with h have "map_of mp b = Some db" by (simp add: update_conv')
  with ok b h a obtain da where da: "map_of mp (match_id a) = Some da" "db < da"
    unfolding edgesOk_def by blast
  with absent have "match_id a \<noteq> k" by auto
  with da show "\<exists>da. map_of (AList.update k v mp) (match_id a) = Some da \<and> db < da"
    by (simp add: update_conv')
qed

lemma depthLe_new_key: "map_of mp k = None \<Longrightarrow> depthLe mp (AList.update k v mp)"
  by (auto simp: depthLe_def update_conv')

lemma orphanInv_dom:
  "orphanInv ms mp0 mp \<Longrightarrow> \<forall>b \<in> dom (map_of mp0). map_of mp b \<noteq> None"
  unfolding orphanInv_def depthLe_def by fastforce

lemma placeOrphan_inv:
  assumes inv: "orphanInv ms mp0 mp"
  shows "orphanInv ms mp0 (placeOrphan ms m mp)"
proof -
  have zero: "map_of mp (match_id m) = None \<Longrightarrow>
      orphanInv ms mp0 (AList.update (match_id m) 0 mp)"
    using inv orphanInv_dom [OF inv]
    unfolding orphanInv_def
    by (auto intro: nonneg_update edgesOk_new_key depthLe_new_key [THEN depthLe_trans [rotated]])
  have calc: "map_of mp k = Some pd \<Longrightarrow>
      orphanInv ms mp0 (calculateDepth ms mp (match_id m) (pd + 1))" for k pd
  proof -
    assume "map_of mp k = Some pd"
    with inv have "0 \<le> pd" unfolding orphanInv_def nonneg_def by blast
    then have d: "0 \<le> pd + 1" by simp
    from calculateDepth_ext [OF d, of mp ms "match_id m"] calculateDepth_nonneg [OF d, of mp ms "match_id m"]
    show ?thesis
      using inv unfolding orphanInv_def
      by (blast intro: depthLe_trans edgesOk_ext)
  qed
  show ?thesis
    unfolding placeOrphan_def
    using inv zero calc by (auto split: option.splits)
qed

lemma fold_placeOrphan_inv:
  "orphanInv ms mp0 mp \<Longrightarrow> orphanInv ms mp0 (fold (placeOrphan ms) xs mp)"
  by (induction xs arbitrary: mp) (simp_all add: placeOrphan_inv)

lemma traversal_inv:
  "orphanInv ms (calculateDepth ms [] root 0) (calculateDepth ms [] root 0)"
proof -
  have n: "nonneg (calculateDepth ms [] root 0)"
    by (rule calculateDepth_nonneg) (simp_all add: nonneg_def)
  have "freshOk ms [] (calculateDepth ms [] root 0)"
    using calculateDepth_ext [of 0 "[]" ms root] by simp
  then have "edgesOk ms (dom (map_of (calculateDepth ms [] root 0))) (calculateDepth ms [] root 0)"
    unfolding freshOk_def edgesOk_def by simp blast
  with n show ?thesis by (simp add: orphanInv_def depthLe_refl)
qed

lemma fold_capped:
  assumes "\<And>f m. f \<in> set fs \<Longrightarrow> capped m \<Longrightarrow> capped (h f m)" and "capped m0"
  shows "capped (fold h fs m0)"
  using assms by (induction fs arbitrary: m0) simp_all

lemma capped_update: "capped mp \<Longrightarrow> d \<le> maxDepth \<Longrightarrow> capped (AList.update x d mp)"
  by (simp add: capped_def update_conv')

lemma calculateDepth_capped:
  "capped mp \<Longrightarrow> capped (calculateDepth ms mp x d)"
proof (induction ms mp x d rule: calculateDepth.induct)
  case (1 ms mp x d)
  show ?case
  proof (cases "d > maxDepth")
    case True
    then show ?thesis using "1.prems" by (subst calculateDepth.simps) simp
  next
    case False
    let ?mp1 = "if d > existingDepth mp x then AList.update x d mp else mp"
    have n1: "capped ?mp1" using "1.prems" False by (simp add: capped_update)
    have "capped (fold (\<lambda>f mp'. calculateDepth ms mp' (match_id f) (d + 1)) (feeders ms x) ?mp1)"
      by (intro fold_capped "1.IH" [OF False] n1)
    then show ?thesis by (subst calculateDepth.simps) (simp add: False)
  qed
qed

lemma placeOrphan_cases:
  assumes "map_of mp (match_id m) \<noteq> None \<Longrightarrow> P mp"
    and "map_of mp (match_id m) = None \<Longrightarrow> P (AList.update (match_id m) 0 mp)"
    and "\<And>parent pd. map_of mp (match_id m) = None \<Longrightarrow>
           find (\<lambda>p. Some (match_id p) = winnerToMatchId m
                        \<or> Some (match_id p) = loserToMatchId m) ms = Some parent \<Longrightarrow>
           map_of mp (match_id parent) = Some pd \<Longrightarrow>
           P (calculateDepth ms mp (match_id m) (pd + 1))"
  shows "P (placeOrphan ms m mp)"
proof (cases "map_of mp (match_id m) \<noteq> None")
  case True
  then have "placeOrphan ms m mp = mp" by (simp add: placeOrphan_def)
  with assms(1) True show ?thesis by simp
next
  case False
  then have none: "map_of mp (match_id m) = None" by simp
  show ?thesis
  proof (cases "find (\<lambda>p. Some (match_id p) = winnerToMatchId m
                        \<or> Some (match_id p) = loserToMatchId m) ms")
    case None
    then have "placeOrphan ms m mp = AList.update (match_id m) 0 mp"
      using none by (simp add: placeOrphan_def)
    with assms(2) none show ?thesis by simp
  next
    case (Some parent)
    show ?thesis
    proof (cases "map_of mp (match_id parent)")
      case None
      then have "placeOrphan ms m mp = AList.update (match_id m) 0 mp"
        using none Some by (simp add: placeOrphan_def)
      with assms(2) none show ?thesis by simp
    next
      case (Some pd)
      then have "placeOrphan ms m mp = calculateDepth ms mp (match_id m) (pd + 1)"
        using none \<open>find _ ms = Some parent\<close> by (simp add: placeOrphan_def)
      with assms(3) [OF none \<open>find _ ms = Some parent\<close> Some] show ?thesis by simp
    qed
  qed
qed

lemma placeOrphan_capped: "capped mp \<Longrightarrow> capped (placeOrphan ms m mp)"
  by (rule placeOrphan_cases)
     (simp_all add: capped_update calculateDepth_capped maxDepth_def)

lemma placeOrphan_nonneg: "nonneg mp \<Longrightarrow> nonneg (placeOrphan ms m mp)"
proof (rule placeOrphan_cases)
  fix parent pd
  assume "nonneg mp" "map_of mp (match_id parent) = Some pd"
  then have "0 \<le> pd + 1" unfolding nonneg_def by fastforce
  then show "nonneg (calculateDepth ms mp (match_id m) (pd + 1))"
    using \<open>nonneg mp\<close> by (rule calculateDepth_nonneg)
qed (simp_all add: nonneg_update)

lemma placeOrphan_depthLe: "nonneg mp \<Longrightarrow> depthLe mp (placeOrphan ms m mp)"
proof (rule placeOrphan_cases)
  fix parent pd
  assume "nonneg mp" "map_of mp (match_id parent) = Some pd"
  then have "0 \<le> pd + 1" unfolding nonneg_def by fastforce
  then show "depthLe mp (calculateDepth ms mp (match_id m) (pd + 1))"
    using calculateDepth_ext by blast
qed (simp_all add: depthLe_refl depthLe_new_key)

lemma settled_mono:
  assumes "settled ms mp m" and "depthLe mp mp'"
  shows "settled ms mp' m"
proof (cases "map_of mp (match_id m)")
  case (Some v)
  with assms(2) have "map_of mp' (match_id m) \<noteq> None" unfolding depthLe_def by fastforce
  then show ?thesis by (simp add: settled_def)
next
  case None
  with assms(1) obtain parent pd where
    f: "find (\<lambda>p. Some (match_id p) = winnerToMatchId m
                        \<or> Some (match_id p) = loserToMatchId m) ms = Some parent"
    and pd: "map_of mp (match_id parent) = Some pd" "maxDepth \<le> pd"
    unfolding settled_def by auto
  from pd(1) assms(2) obtain pd' where "map_of mp' (match_id parent) = Some pd'" "pd \<le> pd'"
    unfolding depthLe_def by blast
  with f pd(2) show ?thesis unfolding settled_def by force
qed

lemma placeOrphan_settled:
  assumes "nonneg mp"
  shows "settled ms (placeOrphan ms m mp) m"
proof (rule placeOrphan_cases)
  assume "map_of mp (match_id m) \<noteq> None"
  then show "settled ms mp m" by (simp add: settled_def)
next
  show "settled ms (AList.update (match_id m) 0 mp) m"
    by (simp add: settled_def update_conv')
next
  fix parent pd
  assume f: "find (\<lambda>p. Some (match_id p) = winnerToMatchId m
                        \<or> Some (match_id p) = loserToMatchId m) ms = Some parent"
    and pd: "map_of mp (match_id parent) = Some pd"
  from assms pd have d: "0 \<le> pd + 1" unfolding nonneg_def by fastforce
  show "settled ms (calculateDepth ms mp (match_id m) (pd + 1)) m"
  proof (cases "pd + 1 \<le> maxDepth")
    case True
    with calculateDepth_ext [OF d, of mp ms "match_id m"]
    have "atLeastDepth (calculateDepth ms mp (match_id m) (pd + 1)) (match_id m) (pd + 1)"
      by blast
    then show ?thesis by (auto simp: settled_def atLeastDepth_def)
  next
    case False
    then have "calculateDepth ms mp (match_id m) (pd + 1) = mp"
      by (subst calculateDepth.simps) simp
    moreover from False have "maxDepth \<le> pd" by simp
    ultimately show ?thesis using f pd unfolding settled_def by force
  qed
qed

lemma fold_placeOrphan_settled:
  "nonneg mp \<Longrightarrow>
   nonneg (fold (placeOrphan ms) xs mp) \<and> depthLe mp (fold (placeOrphan ms) xs mp)
   \<and> (\<forall>m \<in> set xs. settled ms (fold (placeOrphan ms) xs mp) m)"
proof (induction xs arbitrary: mp)
  case Nil
  then show ?case by (simp add: depthLe_refl)
next
  case (Cons x xs)
  let ?m1 = "placeOrphan ms x mp"
  let ?mF = "fold (placeOrphan ms) xs ?m1"
  have n1: "nonneg ?m1" using Cons.prems by (rule placeOrphan_nonneg)
  have le1: "depthLe mp ?m1" using Cons.prems by (rule placeOrphan_depthLe)
  have s1: "settled ms ?m1 x" using Cons.prems by (rule placeOrphan_settled)
  from Cons.IH [OF n1] have rest: "nonneg ?mF" "depthLe ?m1 ?mF"
    "\<forall>m \<in> set xs. settled ms ?mF m" by simp_all
  have "settled ms ?mF x" using s1 rest(2) by (rule settled_mono)
  moreover have "depthLe mp ?mF" using le1 rest(2) by (rule depthLe_trans)
  ultimately show ?case using rest by simp
qed

lemma fold_placeOrphan_capped:
  "capped mp \<Longrightarrow> capped (fold (placeOrphan ms) xs mp)"
  by (induction xs arbitrary: mp) (simp_all add: placeOrphan_capped)

lemma matchDepthMap_capped: "capped (matchDepthMap ms root)"
  unfolding matchDepthMap_def
  by (intro fold_placeOrphan_capped calculateDepth_capped) (simp add: capped_def)

lemma dropped_only_at_cap:
  assumes "m \<in> set ms" and "map_of (matchDepthMap ms root) (match_id m) = None"
  shows "\<exists>parent. find (\<lambda>p. Some (match_id p) = winnerToMatchId m
                        \<or> Some (match_id p) = loserToMatchId m) ms = Some parent
          \<and> map_of (matchDepthMap ms root) (match_id parent) = Some maxDepth"
proof -
  have "nonneg (calculateDepth ms [] root 0)"
    by (rule calculateDepth_nonneg) (simp_all add: nonneg_def)
  from fold_placeOrphan_settled [OF this, of ms ms] assms(1)
  have "settled ms (matchDepthMap ms root) m" unfolding matchDepthMap_def by blast
  with assms(2) obtain parent pd where
    f: "find (\<lambda>p. Some (match_id p) = winnerToMatchId m
                        \<or> Some (match_id p) = loserToMatchId m) ms = Some parent"
    and pd: "map_of (matchDepthMap ms root) (match_id parent) = Some pd" "maxDepth \<le> pd"
    unfolding settled_def by auto
  from pd(1) matchDepthMap_capped [of ms root] have "pd \<le> maxDepth"
    unfolding capped_def by blast
  with pd have "map_of (matchDepthMap ms root) (match_id parent) = Some maxDepth" by simp
  with f show ?thesis by blast
qed

lemma posOk_ext:
  assumes ok: "posOk ms mp" and le: "depthLe mp mp'" and fresh: "freshOk ms mp mp'"
  shows "posOk ms mp'"
  unfolding posOk_def
proof (intro allI impI ballI)
  fix b db a
  assume h: "map_of mp' b = Some db \<and> 0 < db \<and> db < maxDepth"
    and a: "a \<in> set (feeders ms b)"
  show "\<exists>da. map_of mp' (match_id a) = Some da \<and> db < da"
  proof (cases "map_of mp b = Some db")
    case True
    with ok h a obtain da where "map_of mp (match_id a) = Some da" "db < da"
      unfolding posOk_def by blast
    with le obtain da' where "map_of mp' (match_id a) = Some da'" "da \<le> da'"
      unfolding depthLe_def by blast
    with \<open>db < da\<close> show ?thesis by auto
  next
    case False
    with fresh h a show ?thesis unfolding freshOk_def by blast
  qed
qed

lemma posOk_new_key:
  assumes ok: "posOk ms mp" and absent: "map_of mp k = None"
  shows "posOk ms (AList.update k 0 mp)"
  unfolding posOk_def
proof (intro allI impI ballI)
  fix b db a
  assume h: "map_of (AList.update k 0 mp) b = Some db \<and> 0 < db \<and> db < maxDepth"
    and a: "a \<in> set (feeders ms b)"
  from h have "b \<noteq> k" by (auto simp: update_conv')
  with h have "map_of mp b = Some db" by (simp add: update_conv')
  with ok h a obtain da where da: "map_of mp (match_id a) = Some da" "db < da"
    unfolding posOk_def by blast
  with absent have "match_id a \<noteq> k" by auto
  with da show "\<exists>da. map_of (AList.update k 0 mp) (match_id a) = Some da \<and> db < da"
    by (simp add: update_conv')
qed

lemma placeOrphan_posOk:
  assumes "nonneg mp" and "posOk ms mp"
  shows "posOk ms (placeOrphan ms m mp)"
proof (rule placeOrphan_cases)
  show "posOk ms mp" by (rule assms(2))
next
  assume "map_of mp (match_id m) = None"
  with assms(2) show "posOk ms (AList.update (match_id m) 0 mp)" by (rule posOk_new_key)
next
  fix parent pd
  assume "map_of mp (match_id parent) = Some pd"
  with assms(1) have d: "0 \<le> pd + 1" unfolding nonneg_def by fastforce
  from calculateDepth_ext [OF d, of mp ms "match_id m"] assms(2)
  show "posOk ms (calculateDepth ms mp (match_id m) (pd + 1))"
    by (blast intro: posOk_ext)
qed

lemma fold_placeOrphan_posOk:
  "nonneg mp \<Longrightarrow> posOk ms mp \<Longrightarrow> posOk ms (fold (placeOrphan ms) xs mp)"
  by (induction xs arbitrary: mp) (simp_all add: placeOrphan_posOk placeOrphan_nonneg)

lemma matchDepthMap_posOk: "posOk ms (matchDepthMap ms root)"
proof -
  have n: "nonneg (calculateDepth ms [] root 0)"
    by (rule calculateDepth_nonneg) (simp_all add: nonneg_def)
  have "freshOk ms [] (calculateDepth ms [] root 0)"
    using calculateDepth_ext [of 0 "[]" ms root] by simp
  then have "posOk ms (calculateDepth ms [] root 0)"
    unfolding freshOk_def posOk_def by simp blast
  with n show ?thesis unfolding matchDepthMap_def by (rule fold_placeOrphan_posOk)
qed

text \<open>
  Claim C7, amended. In the depth assignment the layout computes, for every two matches
  \<open>a\<close> and \<open>b\<close> of the collection such that the winner edge or the loser edge of \<open>a\<close>
  targets \<open>b\<close>: if the depth of \<open>b\<close> is below the cap, and the traversal from the root
  reaches \<open>b\<close> or the depth of \<open>b\<close> is above 0, then \<open>a\<close> has a depth and it is greater than
  the depth of \<open>b\<close>.
\<close>

theorem layout_depth_decreases_when_reached:
  assumes a: "a \<in> set ms" and b: "b \<in> set ms"
    and edge: "winnerToMatchId a = Some (match_id b) \<or> loserToMatchId a = Some (match_id b)"
    and reached: "map_of (calculateDepth ms [] root 0) (match_id b) \<noteq> None \<or> 0 < db"
    and db: "map_of (matchDepthMap ms root) (match_id b) = Some db"
    and below: "db < maxDepth"
  shows "\<exists>da. map_of (matchDepthMap ms root) (match_id a) = Some da \<and> db < da"
proof -
  have f: "a \<in> set (feeders ms (match_id b))"
    using a edge by (simp add: feeders_def)
  from reached show ?thesis
  proof
    assume r: "map_of (calculateDepth ms [] root 0) (match_id b) \<noteq> None"
    have "orphanInv ms (calculateDepth ms [] root 0) (matchDepthMap ms root)"
      unfolding matchDepthMap_def by (rule fold_placeOrphan_inv) (rule traversal_inv)
    then have ok: "edgesOk ms (dom (map_of (calculateDepth ms [] root 0))) (matchDepthMap ms root)"
      by (simp add: orphanInv_def)
    from r have "match_id b \<in> dom (map_of (calculateDepth ms [] root 0))" by auto
    with ok db below f show ?thesis unfolding edgesOk_def by blast
  next
    assume "0 < db"
    with matchDepthMap_posOk [of ms root] db below f show ?thesis
      unfolding posOk_def by blast
  qed
qed

theorem layout_depth_decreases_when_reached_witness:
  "map_of (matchDepthMap withThirdPlace 4) 4 = Some 0
   \<and> (\<exists>da. map_of (matchDepthMap withThirdPlace 4) 1 = Some da \<and> 0 < da)
   \<and> map_of (calculateDepth sideBracket [] 3 0) 2 = None
   \<and> map_of (matchDepthMap sideBracket 3) 2 = Some 1
   \<and> (\<exists>da. map_of (matchDepthMap sideBracket 3) 4 = Some da \<and> 1 < da)"
proof -
  have a: "withThirdPlace ! 0 \<in> set withThirdPlace" and b: "withThirdPlace ! 3 \<in> set withThirdPlace"
    by (simp_all add: withThirdPlace_def)
  have ids: "match_id (withThirdPlace ! 0) = 1" "match_id (withThirdPlace ! 3) = 4"
    by (simp_all add: withThirdPlace_def initialMatch_def)
  have edge: "winnerToMatchId (withThirdPlace ! 0) = Some (match_id (withThirdPlace ! 3))
      \<or> loserToMatchId (withThirdPlace ! 0) = Some (match_id (withThirdPlace ! 3))"
    by (simp add: withThirdPlace_def initialMatch_def)
  have "map_of (calculateDepth withThirdPlace [] 4 0) (match_id (withThirdPlace ! 3)) \<noteq> None"
    unfolding ids by code_simp
  then have reached:
    "map_of (calculateDepth withThirdPlace [] 4 0) (match_id (withThirdPlace ! 3)) \<noteq> None
      \<or> (0::int) < 0" ..
  have db: "map_of (matchDepthMap withThirdPlace 4) (match_id (withThirdPlace ! 3)) = Some 0"
    unfolding ids by code_simp
  have below: "0 < maxDepth" by (simp add: maxDepth_def)
  have first: "\<exists>da. map_of (matchDepthMap withThirdPlace 4) 1 = Some da \<and> 0 < da"
    using layout_depth_decreases_when_reached [OF a b edge reached db below]
    unfolding ids .
  have a': "sideBracket ! 3 \<in> set sideBracket" and b': "sideBracket ! 1 \<in> set sideBracket"
    by (simp_all add: sideBracket_def)
  have ids': "match_id (sideBracket ! 3) = 4" "match_id (sideBracket ! 1) = 2"
    by (simp_all add: sideBracket_def initialMatch_def)
  have edge': "winnerToMatchId (sideBracket ! 3) = Some (match_id (sideBracket ! 1))
      \<or> loserToMatchId (sideBracket ! 3) = Some (match_id (sideBracket ! 1))"
    by (simp add: sideBracket_def initialMatch_def)
  have pos: "map_of (calculateDepth sideBracket [] 3 0) (match_id (sideBracket ! 1)) \<noteq> None
      \<or> (0::int) < 1" by simp
  have unreached: "map_of (calculateDepth sideBracket [] 3 0) 2 = None" by code_simp
  have db': "map_of (matchDepthMap sideBracket 3) (match_id (sideBracket ! 1)) = Some 1"
    unfolding ids' by code_simp
  have below': "1 < maxDepth" by (simp add: maxDepth_def)
  have second: "\<exists>da. map_of (matchDepthMap sideBracket 3) 4 = Some da \<and> 1 < da"
    using layout_depth_decreases_when_reached [OF a' b' edge' pos db' below']
    unfolding ids' .
  from db first unreached db' second show ?thesis unfolding ids ids' by (intro conjI)
qed

text \<open>
  Claim C7 as stated fails. With two roots, the matches the traversal from the given root
  does not reach are placed by the fallback: match 1 feeds match 2 and both get depth 0.
  In a chain of thirteen matches the cap leaves match 2 (which feeds match 3, at depth 10)
  without a depth, and match 1 (which feeds match 2) gets depth 0.
\<close>

theorem layout_depth_not_monotone:
  "map match_id twoRoots = [1, 2, 3]
   \<and> winnerToMatchId (twoRoots ! 0) = Some (match_id (twoRoots ! 1))
   \<and> map_of (matchDepthMap twoRoots 3) 1 = Some 0
   \<and> map_of (matchDepthMap twoRoots 3) 2 = Some 0
   \<and> map match_id chain13 = [1, 2, 3, 4, 5, 6, 7, 8, 9, 10, 11, 12, 13]
   \<and> winnerToMatchId (chain13 ! 0) = Some (match_id (chain13 ! 1))
   \<and> winnerToMatchId (chain13 ! 1) = Some (match_id (chain13 ! 2))
   \<and> map_of (matchDepthMap chain13 13) 1 = Some 0
   \<and> map_of (matchDepthMap chain13 13) 2 = None
   \<and> map_of (matchDepthMap chain13 13) 3 = Some 10"
  by code_simp

lemma subset_chain: "X \<subseteq> Y \<union> U \<Longrightarrow> Y \<subseteq> Z \<union> W \<Longrightarrow> X \<subseteq> Z \<union> (W \<union> U)"
  by blast

lemma subset_chain2: "X \<subseteq> Z \<union> W \<Longrightarrow> W \<subseteq> V \<Longrightarrow> X \<subseteq> Z \<union> V"
  by blast

lemma fold_dom:
  assumes "\<And>f m. f \<in> set fs \<Longrightarrow> dom (map_of (h f m)) \<subseteq> dom (map_of m) \<union> S f"
  shows "dom (map_of (fold h fs m0)) \<subseteq> dom (map_of m0) \<union> (\<Union>f \<in> set fs. S f)"
  using assms
proof (induction fs arbitrary: m0)
  case Nil
  show ?case by simp
next
  case (Cons f fs)
  have B: "dom (map_of (fold h fs (h f m0))) \<subseteq> dom (map_of (h f m0)) \<union> (\<Union>f \<in> set fs. S f)"
  proof (rule Cons.IH)
    fix f' m assume "f' \<in> set fs"
    then have "f' \<in> set (f # fs)" by simp
    then show "dom (map_of (h f' m)) \<subseteq> dom (map_of m) \<union> S f'" by (rule Cons.prems)
  qed
  have "f \<in> set (f # fs)" by simp
  then have A: "dom (map_of (h f m0)) \<subseteq> dom (map_of m0) \<union> S f"
    by (rule Cons.prems)
  have C: "dom (map_of (fold h fs (h f m0))) \<subseteq> dom (map_of m0) \<union> (S f \<union> (\<Union>f \<in> set fs. S f))"
    by (rule subset_chain [OF B A])
  have "fold h (f # fs) m0 = fold h fs (h f m0)" by simp
  moreover have "(\<Union>f \<in> set (f # fs). S f) = S f \<union> (\<Union>f \<in> set fs. S f)" by simp
  ultimately show ?case using C by (simp only:)
qed

lemma calculateDepth_dom_reach:
  "dom (map_of (calculateDepth ms mp x d)) \<subseteq>
     dom (map_of mp) \<union> (if d > maxDepth then {} else set (reachable ms x (nat (maxDepth - d))))"
proof (induction ms mp x d rule: calculateDepth.induct)
  case (1 ms mp x d)
  show ?case
  proof (cases "d > maxDepth")
    case True
    have "calculateDepth ms mp x d = mp"
      by (subst calculateDepth.simps) (simp only: True if_True)
    then show ?thesis by simp
  next
    case False
    define n where "n = nat (maxDepth - (d + 1))"
    define k where "k = nat (maxDepth - d)"
    define mp1 where "mp1 = (if d > existingDepth mp x then AList.update x d mp else mp)"
    define h where "h = (\<lambda>(f::Match) mp'. calculateDepth ms mp' (match_id f) (d + 1))"
    define S where "S = (\<lambda>f::Match. if d + 1 > maxDepth then {} else set (reachable ms (match_id f) n))"
    have eq: "calculateDepth ms mp x d = fold h (feeders ms x) mp1"
      unfolding h_def mp1_def
      by (subst calculateDepth.simps) (simp only: False if_False)
    have IH: "dom (map_of (h f m)) \<subseteq> dom (map_of m) \<union> S f" if "f \<in> set (feeders ms x)" for f m
      unfolding h_def S_def n_def by (rule "1.IH" [OF False that])
    have F: "dom (map_of (fold h (feeders ms x) mp1))
               \<subseteq> dom (map_of mp1) \<union> (\<Union>f \<in> set (feeders ms x). S f)"
      by (rule fold_dom) (rule IH)
    have 1: "dom (map_of mp1) \<subseteq> dom (map_of mp) \<union> {x}"
      unfolding mp1_def by (simp add: update_conv' subset_insertI)
    have 2: "{x} \<union> (\<Union>f \<in> set (feeders ms x). S f) \<subseteq> set (reachable ms x k)"
    proof (cases "d + 1 > maxDepth")
      case True
      then have S: "S = (\<lambda>f::Match. {})" unfolding S_def by simp
      show ?thesis unfolding S by (cases k) simp_all
    next
      case False
      then have "k = Suc n" unfolding k_def n_def by linarith
      moreover have "S = (\<lambda>f::Match. set (reachable ms (match_id f) n))"
        unfolding S_def using False by simp
      ultimately show ?thesis by auto
    qed
    have "dom (map_of (fold h (feeders ms x) mp1))
            \<subseteq> dom (map_of mp) \<union> ({x} \<union> (\<Union>f \<in> set (feeders ms x). S f))"
      by (rule subset_chain [OF F 1, simplified Un_commute [of _ "{x}"]])
    then have "dom (map_of (fold h (feeders ms x) mp1)) \<subseteq> dom (map_of mp) \<union> set (reachable ms x k)"
      using 2 by (rule subset_chain2)
    then show ?thesis unfolding eq k_def by (simp only: False if_False)
  qed
qed


lemma traversal_within_cap:
  assumes "k \<notin> set (reachable ms root (nat maxDepth))"
  shows "map_of (calculateDepth ms [] root 0) k = None"
proof -
  have "dom (map_of (calculateDepth ms [] root 0)) \<subseteq> set (reachable ms root (nat maxDepth))"
    using calculateDepth_dom_reach [of ms "[]" root 0] by (simp add: maxDepth_def)
  with assms show ?thesis by auto
qed


lemma fold_max_ge: "(a::int) \<le> fold max xs a"
proof (induction xs arbitrary: a)
  case Nil
  show ?case by simp
next
  case (Cons y ys)
  have "max y a \<le> fold max ys (max y a)" by (rule Cons.IH)
  then show ?case by simp
qed

lemma fold_max_mem: "x \<in> set xs \<Longrightarrow> (x::int) \<le> fold max xs a"
proof (induction xs arbitrary: a)
  case Nil
  then show ?case by simp
next
  case (Cons y ys)
  show ?case
  proof (cases "x = y")
    case True
    have "max y a \<le> fold max ys (max y a)" by (rule fold_max_ge)
    with True show ?thesis by simp
  next
    case False
    with Cons.prems have "x \<in> set ys" by simp
    then show ?thesis by (simp add: Cons.IH)
  qed
qed

lemma depth_le_maxFound: "map_of mp k = Some d \<Longrightarrow> d \<le> maxFoundDepth mp"
proof -
  assume "map_of mp k = Some d"
  then have "(k, d) \<in> set mp" by (rule map_of_SomeD)
  then have "d \<in> set (map snd mp)" by force
  then show ?thesis unfolding maxFoundDepth_def by (rule fold_max_mem)
qed

lemma matchDepthMap_nonneg: "nonneg (matchDepthMap ms root)"
proof -
  have "orphanInv ms (calculateDepth ms [] root 0) (matchDepthMap ms root)"
    unfolding matchDepthMap_def by (rule fold_placeOrphan_inv) (rule traversal_inv)
  then show ?thesis by (simp add: orphanInv_def)
qed

lemma calculateDepth_total: "calculateDepth_dom (ms, mp, x, d)"
proof (induction "nat (maxDepth + 1 - d)" arbitrary: mp x d rule: less_induct)
  case less
  show ?case
  proof (rule calculateDepth.domintros)
    fix f mp'
    assume "\<not> maxDepth < d"
    then have "nat (maxDepth + 1 - (d + 1)) < nat (maxDepth + 1 - d)" by simp
    then show "calculateDepth_dom (ms, mp', match_id f, d + 1)" by (rule less)
  qed
qed

lemma levels_set:
  "set (concat (levels ms root)) =
     (\<Union>d \<in> {0..maxFoundDepth (matchDepthMap ms root)}.
        {m \<in> set ms. map_of (matchDepthMap ms root) (match_id m) = Some d})"
  by (simp add: levels_def Let_def)

lemma levels_members:
  "(m \<in> set (concat (levels ms root))) =
     (m \<in> set ms \<and> map_of (matchDepthMap ms root) (match_id m) \<noteq> None)"
proof
  assume "m \<in> set (concat (levels ms root))"
  then show "m \<in> set ms \<and> map_of (matchDepthMap ms root) (match_id m) \<noteq> None"
    unfolding levels_set by auto
next
  assume h: "m \<in> set ms \<and> map_of (matchDepthMap ms root) (match_id m) \<noteq> None"
  then obtain d where d: "map_of (matchDepthMap ms root) (match_id m) = Some d" by auto
  then have "0 \<le> d" using matchDepthMap_nonneg [of ms root] unfolding nonneg_def by blast
  moreover have "d \<le> maxFoundDepth (matchDepthMap ms root)"
    using d by (rule depth_le_maxFound)
  ultimately show "m \<in> set (concat (levels ms root))"
    unfolding levels_set using h d by auto
qed

text \<open>
  Claim C9, amended. The depth traversal terminates on every match collection, cyclic
  or not, because a call past the cap returns at once; a match that is not within the cap
  (ten edges) of the root gets no depth from the traversal; the layout raises no error and
  its levels hold exactly the matches that have a depth in the final map, so a match
  without one is silently dropped; and a match of the collection ends without a depth only
  if the first match that it targets ends at the cap depth.
\<close>

theorem layout_traversal_terminates_capped:
  "calculateDepth_dom (ms, mp, x, d)
   \<and> (maxDepth < d \<longrightarrow> calculateDepth ms mp x d = mp)
   \<and> (k \<notin> set (reachable ms root (nat maxDepth))
        \<longrightarrow> map_of (calculateDepth ms [] root 0) k = None)
   \<and> ((m \<in> set (concat (levels ms root)))
        = (m \<in> set ms \<and> map_of (matchDepthMap ms root) (match_id m) \<noteq> None))
   \<and> (orphan \<in> set ms \<and> map_of (matchDepthMap ms root) (match_id orphan) = None
        \<longrightarrow> (\<exists>parent.
               find (\<lambda>p. Some (match_id p) = winnerToMatchId orphan
                           \<or> Some (match_id p) = loserToMatchId orphan) ms = Some parent
               \<and> map_of (matchDepthMap ms root) (match_id parent) = Some maxDepth))"
proof (intro conjI impI)
  show "calculateDepth_dom (ms, mp, x, d)" by (rule calculateDepth_total)
  show "calculateDepth ms mp x d = mp" if "maxDepth < d"
    using that by (subst calculateDepth.simps) simp
  show "map_of (calculateDepth ms [] root 0) k = None"
    if "k \<notin> set (reachable ms root (nat maxDepth))"
    using that by (rule traversal_within_cap)
  show "(m \<in> set (concat (levels ms root)))
        = (m \<in> set ms \<and> map_of (matchDepthMap ms root) (match_id m) \<noteq> None)"
    by (rule levels_members)
  show "\<exists>parent.
          find (\<lambda>p. Some (match_id p) = winnerToMatchId orphan
                      \<or> Some (match_id p) = loserToMatchId orphan) ms = Some parent
          \<and> map_of (matchDepthMap ms root) (match_id parent) = Some maxDepth"
    if "orphan \<in> set ms \<and> map_of (matchDepthMap ms root) (match_id orphan) = None"
    using that by (blast intro: dropped_only_at_cap)
qed

theorem layout_traversal_terminates_capped_witness:
  "calculateDepth_dom (chain13, [], 13, 0)
   \<and> calculateDepth chain13 [] 2 11 = []
   \<and> map_of (calculateDepth chain13 [] 13 0) 1 = None
   \<and> chainMatch 2 \<notin> set (concat (levels chain13 13))
   \<and> (\<exists>parent.
         find (\<lambda>p. Some (match_id p) = winnerToMatchId (chainMatch 2)
                     \<or> Some (match_id p) = loserToMatchId (chainMatch 2)) chain13 = Some parent
         \<and> map_of (matchDepthMap chain13 13) (match_id parent) = Some maxDepth)"
proof -
  note T = layout_traversal_terminates_capped
    [where ms = chain13 and mp = "[]" and x = 13 and d = 0 and k = 1 and root = 13
       and m = "chainMatch 2" and orphan = "chainMatch 2"]
  note U = layout_traversal_terminates_capped
    [where ms = chain13 and mp = "[]" and x = 2 and d = 11]
  have h0: "maxDepth < 11" by (simp add: maxDepth_def)
  have h1: "1 \<notin> set (reachable chain13 13 (nat maxDepth))" by code_simp
  have h2: "map_of (matchDepthMap chain13 13) (match_id (chainMatch 2)) = None" by code_simp
  have h3: "chainMatch 2 \<in> set chain13" by code_simp
  from T have c0: "calculateDepth_dom (chain13, [], 13, 0)" by (rule conjunct1)
  from U h0 have c1: "calculateDepth chain13 [] 2 11 = []" by blast
  from T h1 have c2: "map_of (calculateDepth chain13 [] 13 0) 1 = None" by blast
  from T h2 have c3: "chainMatch 2 \<notin> set (concat (levels chain13 13))" by blast
  from T h2 h3 have c4: "\<exists>parent.
         find (\<lambda>p. Some (match_id p) = winnerToMatchId (chainMatch 2)
                     \<or> Some (match_id p) = loserToMatchId (chainMatch 2)) chain13 = Some parent
         \<and> map_of (matchDepthMap chain13 13) (match_id parent) = Some maxDepth"
    by blast
  from c0 c1 c2 c3 c4 show ?thesis by (intro conjI)
qed

text \<open>
  Claim C9 as stated fails in its last part: in the chain of thirteen matches every path
  from the root (match 13) to match 1 has twelve edges, beyond the cap, and the traversal
  gives match 1 no depth; yet match 1 is not dropped: the pass over the missed matches
  gives it depth 0, and the layout shows it in the last level, beside the final.
\<close>

theorem beyond_cap_not_dropped:
  "1 \<notin> set (reachable chain13 13 10) \<and> 1 \<in> set (reachable chain13 13 12)
   \<and> map_of (calculateDepth chain13 [] 13 0) 1 = None
   \<and> map_of (matchDepthMap chain13 13) 1 = Some 0
   \<and> map (map match_id) (levels chain13 13)
       = [[3], [4], [5], [6], [7], [8], [9], [10], [11], [12], [1, 13]]"
  by code_simp

end
